theory Spec2Isabelle
  imports Main "HOL-Library.Sublist"
begin

section \<open>The reflux core of angular-reflux (src/reflux.ts)\<close>

text \<open>
  The engine keeps one application state in the namespace \<open>Reflux\<close>. Actions are routed
  to the action observers (handlers) registered for the action's class; every handler
  returns an Observable of partial or replacement states; \<open>Action.dispatch\<close> pipes what
  the handlers emit through \<open>flatMap\<close>, \<open>map\<close>, \<open>skipWhile\<close>, \<open>map\<close>, \<open>catch\<close> and
  \<open>share\<close>, and settles a Promise. \<open>StateStream.select\<close> filters the state stream by a
  selector.

  The operators of RxJS, the BehaviorSubject and the library seamless-immutable are given
  their documented behaviour. A
  handler is a function of the state and the action it is called with, and an Observable
  sends finitely many notifications. What JavaScript leaves to the event loop, the order
  in which asynchronous notifications arrive, is an argument of the model.
\<close>

subsection \<open>Values\<close>

text \<open>
  A state is a JavaScript value: \<open>undefined\<close>, \<open>null\<close>, a boolean, a number (integers
  only here, so there is no NaN), a string, an array or an object. An array or an object
  either is one that the library seamless-immutable has made (it then has the library's
  methods) or is a plain one. An object is given by its own enumerable properties in the
  order in which JavaScript enumerates them: no key occurs twice, and the keys that are
  array indices come first, in ascending order. An immutable array or object holds
  immutable values only.
\<close>

datatype mutability = Mutable | Immutable

datatype jv =
    JUndefined
  | JNull
  | JBool bool
  | JNum int
  | JStr string
  | JArr mutability "jv list"
  | JObj mutability "(string \<times> jv) list"

text \<open>\<open>x == undefined\<close> (loose equality) holds of \<open>undefined\<close> and of \<open>null\<close>.\<close>

definition is_undefined :: "jv \<Rightarrow> bool" where
  "is_undefined v = (v = JUndefined \<or> v = JNull)"

text \<open>
  \<open>Immutable.from(obj)\<close> of seamless-immutable: a value that is already immutable is
  returned as it is, a plain array or object is copied into an immutable one, its values
  converted in the same way.
\<close>

fun Immutable_from :: "jv \<Rightarrow> jv" where
  "Immutable_from (JObj Mutable kvs) =
     JObj Immutable (map (\<lambda>kv. (fst kv, Immutable_from (snd kv))) kvs)"
| "Immutable_from (JArr Mutable xs) = JArr Immutable (map Immutable_from xs)"
| "Immutable_from v = v"

text \<open>The decimal digits of a number, as JavaScript prints an array index.\<close>

fun show_nat :: "nat \<Rightarrow> string" where
  "show_nat n =
     (if n < 10 then [char_of (48 + n)]
      else show_nat (n div 10) @ [char_of (48 + n mod 10)])"

declare show_nat.simps [simp del]

text \<open>
  A property key is an array index when it is the decimal notation, without leading
  zeros, of a number below \<open>2^32 - 1\<close>.
\<close>

definition digit :: "char \<Rightarrow> bool" where
  "digit c = (48 \<le> (of_char c :: int) \<and> (of_char c :: int) \<le> 57)"

definition parse_int :: "string \<Rightarrow> int" where
  "parse_int k = foldl (\<lambda>n c. 10 * n + (of_char c - 48)) 0 k"

definition array_index :: "string \<Rightarrow> int option" where
  "array_index k =
     (if k \<noteq> [] \<and> list_all digit k \<and> (length k = 1 \<or> hd k \<noteq> CHR ''0'')
         \<and> parse_int k < 4294967295
      then Some (parse_int k) else None)"

text \<open>
  The assignment \<open>obj[k] = v\<close>: an existing key keeps its place; a new key that is an
  array index goes among the array indices, in ascending order; any other new key goes
  last.
\<close>

fun assign :: "string \<Rightarrow> jv \<Rightarrow> (string \<times> jv) list \<Rightarrow> (string \<times> jv) list" where
  "assign k v [] = []"
| "assign k v ((k', v') # kvs) = (if k = k' then (k, v) # kvs else (k', v') # assign k v kvs)"

fun insert_index :: "int \<Rightarrow> string \<Rightarrow> jv \<Rightarrow> (string \<times> jv) list \<Rightarrow> (string \<times> jv) list" where
  "insert_index i k v [] = [(k, v)]"
| "insert_index i k v ((k', v') # kvs) =
     (case array_index k' of
        Some j \<Rightarrow> if j < i then (k', v') # insert_index i k v kvs else (k, v) # (k', v') # kvs
      | None \<Rightarrow> (k, v) # (k', v') # kvs)"

definition put :: "string \<Rightarrow> jv \<Rightarrow> (string \<times> jv) list \<Rightarrow> (string \<times> jv) list" where
  "put k v kvs =
     (if map_of kvs k \<noteq> None then assign k v kvs
      else (case array_index k of
              None \<Rightarrow> kvs @ [(k, v)]
            | Some i \<Rightarrow> insert_index i k v kvs))"

text \<open>
  The method \<open>merge(other, {deep: true})\<close> of an immutable object, from the library
  seamless-immutable, which is not under src/; it is modelled by the behaviour of the
  library. For every own property of \<open>other\<close>, in order: when the current value and the
  incoming value are both objects (not arrays) they are merged in the same way; otherwise
  the immutable copy of the incoming value is assigned. Properties that \<open>other\<close> does not
  mention are kept. The result is an immutable object.
\<close>

fun merge_fields :: "(string \<times> jv) list \<Rightarrow> (string \<times> jv) list \<Rightarrow> (string \<times> jv) list" where
  "merge_fields cur [] = cur"
| "merge_fields cur ((k, v) # rest) =
     merge_fields
       (put k (case (map_of cur k, v) of
                 (Some (JObj t c), JObj t' d) \<Rightarrow> JObj Immutable (merge_fields c d)
               | _ \<Rightarrow> Immutable_from v) cur)
       rest"

text \<open>
  \<open>merge\<close> also accepts an array: the own properties of its elements are merged one
  element after the other. The own properties of an array are its elements under their
  indices, those of a string its characters under their indices; a number, a boolean,
  \<open>null\<close> and \<open>undefined\<close> have none.
\<close>

fun indexed :: "nat \<Rightarrow> 'a list \<Rightarrow> (string \<times> 'a) list" where
  "indexed i [] = []"
| "indexed i (x # xs) = (show_nat i, x) # indexed (Suc i) xs"

fun own_properties :: "jv \<Rightarrow> (string \<times> jv) list" where
  "own_properties (JObj t kvs) = kvs"
| "own_properties (JArr t xs) = indexed 0 xs"
| "own_properties (JStr s) = indexed 0 (map (\<lambda>c. JStr [c]) s)"
| "own_properties v = []"

fun merge_array :: "(string \<times> jv) list \<Rightarrow> jv list \<Rightarrow> (string \<times> jv) list" where
  "merge_array cur [] = cur"
| "merge_array cur (x # xs) = merge_array (merge_fields cur (own_properties x)) xs"

text \<open>
  The call \<open>Reflux.state.merge(state, {deep: true})\<close>. Only an immutable object has the
  method \<open>merge\<close>: on a plain object, such as one that a handler wrapped in a
  \<open>ReplaceableState\<close> without making it immutable, on an array and on a primitive value
  the call throws a TypeError. The method throws a TypeError on an argument that is not
  an object or an array. A TypeError is the value \<open>None\<close> here.
\<close>

definition merge_deep :: "jv \<Rightarrow> jv \<Rightarrow> jv option" where
  "merge_deep cur other =
     (case cur of
        JObj Immutable c \<Rightarrow>
          (case other of
             JObj t d \<Rightarrow> Some (JObj Immutable (merge_fields c d))
           | JArr t xs \<Rightarrow> Some (JObj Immutable (merge_array c xs))
           | _ \<Rightarrow> None)
      | _ \<Rightarrow> None)"

subsection \<open>Actions, handlers and the namespace Reflux\<close>

text \<open>
  An action instance is known by its class (\<open>this.constructor\<close>, a number here) and
  carries a payload.
\<close>

record action =
  ctor :: nat
  payload :: jv

text \<open>
  What an Observable returned by a handler emits is either an instance of
  \<open>ReplaceableState\<close> or any other value.
\<close>

datatype emitted = Plain jv | ReplaceableState jv

datatype notification = Next emitted | Error string | Complete

text \<open>
  A call \<open>actionObserver(Reflux.state, this)\<close> throws, or returns something that is not
  an Observable, or returns an Observable. An Observable is given by the notifications
  it sends while \<open>flatMap\<close> subscribes to it (synchronously, as \<open>Observable.of\<close> or the
  \<open>Observable.create\<close> of the documentation do) and by those it sends later.
\<close>

datatype returned =
    Throws string
  | NotObservable
  | Observable "notification list" "notification list"

type_synonym actionObserver = "jv \<Rightarrow> action \<Rightarrow> returned"

text \<open>
  The namespace \<open>Reflux\<close>. The state starts as \<open>Immutable.from({})\<close>, an immutable
  object. \<open>stateStream\<close> is a BehaviorSubject: it is modelled by the
  values it has held, the initial one first, so that its current value is the last and a
  call of \<open>next\<close> appends one. \<open>actionIdentities\<close> is the table of action classes.
\<close>

record reflux =
  lastAction :: "action option"
  state :: jv
  stateStream :: "jv list"
  subscriptions :: "string \<rightharpoonup> actionObserver list"
  actionIdentities :: "nat list"

definition Reflux_init :: reflux where
  "Reflux_init =
     \<lparr>lastAction = None, state = JObj Immutable [], stateStream = [JObj Immutable []],
      subscriptions = Map.empty, actionIdentities = []\<rparr>"

subsection \<open>Action.identity\<close>

text \<open>\<open>Array.prototype.indexOf\<close>: the first index of the element, or \<open>-1\<close>.\<close>

fun indexOf :: "'a list \<Rightarrow> 'a \<Rightarrow> int" where
  "indexOf [] x = - 1"
| "indexOf (y # ys) x =
     (if y = x then 0 else (let i = indexOf ys x in if i < 0 then - 1 else i + 1))"

text \<open>The template string \<open>`c${id}`\<close> prints the index in decimal digits.\<close>

definition identity :: "action \<Rightarrow> reflux \<Rightarrow> string \<times> reflux" where
  "identity a R =
     (let id = indexOf (actionIdentities R) (ctor a) in
      if id < 0 then
        (let R' = R\<lparr>actionIdentities := actionIdentities R @ [ctor a]\<rparr> in
         (CHR ''c'' # show_nat (nat (indexOf (actionIdentities R') (ctor a))), R'))
      else (CHR ''c'' # show_nat (nat id), R))"

subsection \<open>Action.subscribe\<close>

text \<open>
  \<open>this.identity\<close> is read for the test and, when the entry is missing, for the
  assignment, and once more for the \<open>push\<close>.
\<close>

definition subscribe :: "actionObserver \<Rightarrow> action \<Rightarrow> reflux \<Rightarrow> reflux" where
  "subscribe actionObserver a R =
     (let (i, R1) = identity a R;
          R2 = (if subscriptions R1 i = None
                then (let (j, R') = identity a R1
                      in R'\<lparr>subscriptions := (subscriptions R')(j \<mapsto> [])\<rparr>)
                else R1);
          (k, R3) = identity a R2
      in R3\<lparr>subscriptions :=
               (subscriptions R3)(k \<mapsto> (case subscriptions R3 k of
                                          None \<Rightarrow> [actionObserver]
                                        | Some hs \<Rightarrow> hs @ [actionObserver]))\<rparr>)"

subsection \<open>Action.dispatch\<close>

text \<open>
  The chain of operators of one dispatch, before \<open>catch\<close>, is running, has completed, or
  has been stopped by an error.
\<close>

datatype status = Running | Completed | Failed string

text \<open>
  One dispatch in progress: the namespace, the number of values that have reached
  \<open>skipWhile\<close>, the status of the chain, and for every handler called so far what its
  Observable has still to send (\<open>None\<close> once that Observable has completed). \<open>calls\<close>
  records the first argument of every handler call, in call order.
\<close>

record run = reflux +
  index :: nat
  status :: status
  inners :: "notification list option list"
  calls :: "jv list"

text \<open>
  The first \<open>map\<close>, "merge or replace state": the new \<open>Reflux.state\<close> and the value
  passed on, or the error thrown by \<open>merge\<close>.
\<close>

definition merge_or_replace :: "jv \<Rightarrow> emitted \<Rightarrow> string + jv \<times> jv" where
  "merge_or_replace cur e =
     (case e of
        ReplaceableState nextState \<Rightarrow>
          if is_undefined nextState then Inr (cur, JUndefined)
          else Inr (nextState, nextState)
      | Plain s \<Rightarrow>
          if \<not> is_undefined s then
            (case merge_deep cur s of
               None \<Rightarrow> Inl ''TypeError''
             | Some merged \<Rightarrow> Inr (merged, s))
          else Inr (cur, s))"

text \<open>
  A value leaves \<open>flatMap\<close>: the first \<open>map\<close> merges or replaces, \<open>skipWhile\<close> drops the
  value while \<open>i + 1 < subscriptions.length\<close>, and the second \<open>map\<close> pushes
  \<open>Reflux.state\<close> to \<open>stateStream\<close> when the value that came through is not undefined.
  \<open>n\<close> is \<open>subscriptions.length\<close>.
\<close>

definition on_next :: "nat \<Rightarrow> emitted \<Rightarrow> run \<Rightarrow> run" where
  "on_next n e r =
     (case merge_or_replace (state r) e of
        Inl err \<Rightarrow> r\<lparr>status := Failed err\<rparr>
      | Inr (s', out) \<Rightarrow>
          (let r1 = r\<lparr>state := s', index := index r + 1\<rparr> in
           if index r + 1 < n then r1
           else if \<not> is_undefined out then r1\<lparr>stateStream := stateStream r1 @ [s']\<rparr>
           else r1))"

text \<open>
  \<open>flatMap\<close> subscribes to the Observable a handler returned: what the Observable sends
  at once is processed before the next handler is called; the rest stays pending.
\<close>

fun deliver_sync :: "nat \<Rightarrow> notification list \<Rightarrow> notification list \<Rightarrow> run \<Rightarrow> run" where
  "deliver_sync n [] later r = r\<lparr>inners := inners r @ [Some later]\<rparr>"
| "deliver_sync n (Next e # ns) later r =
     (let r' = on_next n e r in
      if status r' = Running then deliver_sync n ns later r' else r')"
| "deliver_sync n (Error err # ns) later r = r\<lparr>status := Failed err\<rparr>"
| "deliver_sync n (Complete # ns) later r = r\<lparr>inners := inners r @ [None]\<rparr>"

text \<open>
  \<open>Observable.from(subscriptions).flatMap(...)\<close>: the handlers are called in registration
  order, each with \<open>Reflux.state\<close> as it is at that moment; an error stops the loop.
\<close>

fun flatMap :: "nat \<Rightarrow> actionObserver list \<Rightarrow> action \<Rightarrow> run \<Rightarrow> run" where
  \<open>flatMap n [] a r = r\<close>
| \<open>flatMap n (h # hs) a r =
     (if status r \<noteq> Running then r
      else
        (let r1 = r\<lparr>calls := calls r @ [state r]\<rparr> in
         case h (state r) a of
           Throws err \<Rightarrow> r1\<lparr>status := Failed err\<rparr>
         | NotObservable \<Rightarrow> r1\<lparr>status := Failed ''Store must return "Observable"''\<rparr>
         | Observable now later \<Rightarrow> flatMap n hs a (deliver_sync n now later r1)))\<close>

text \<open>The chain completes when every handler has been called and every Observable has completed.\<close>

definition settle :: "run \<Rightarrow> run" where
  "settle r =
     (if status r = Running \<and> list_all (\<lambda>i. i = None) (inners r)
      then r\<lparr>status := Completed\<rparr> else r)"

text \<open>
  Later, the next pending notification of the Observable of handler \<open>k\<close> arrives. Nothing
  arrives from an Observable that has completed or has nothing left to send, nor after
  the chain has stopped.
\<close>

definition arrive :: "nat \<Rightarrow> nat \<Rightarrow> run \<Rightarrow> run" where
  "arrive n k r =
     (if status r = Running \<and> k < length (inners r) then
        (case inners r ! k of
           None \<Rightarrow> r
         | Some [] \<Rightarrow> r
         | Some (Next e # ns) \<Rightarrow> on_next n e (r\<lparr>inners := (inners r)[k := Some ns]\<rparr>)
         | Some (Error err # ns) \<Rightarrow> r\<lparr>status := Failed err\<rparr>
         | Some (Complete # ns) \<Rightarrow> settle (r\<lparr>inners := (inners r)[k := None]\<rparr>))
      else r)"

text \<open>
  The wall-clock order of the asynchronous notifications is a schedule: the list of the
  handler numbers whose Observables send, in order of arrival.
\<close>

fun arrivals :: "nat \<Rightarrow> nat list \<Rightarrow> run \<Rightarrow> run" where
  "arrivals n [] r = r"
| "arrivals n (k # ks) r = arrivals n ks (arrive n k r)"

text \<open>
  The chain at the moment the Promise subscribes to it: no value has reached \<open>skipWhile\<close>,
  no handler has been called.
\<close>

definition subscribed :: "reflux \<Rightarrow> run" where
  "subscribed R = reflux.extend R (run.fields 0 Running [] [])"

text \<open>The chain from \<open>Observable.from\<close> to the second \<open>map\<close>, run on a schedule.\<close>

definition observable :: "actionObserver list \<Rightarrow> action \<Rightarrow> nat list \<Rightarrow> reflux \<Rightarrow> run" where
  "observable hs a sched R =
     arrivals (length hs) sched (settle (flatMap (length hs) hs a (subscribed R)))"

text \<open>\<open>.catch((error) => Observable.empty())\<close>: an error is replaced by a completion.\<close>

definition catch_empty :: "status \<Rightarrow> status" where
  "catch_empty s = (case s of Failed err \<Rightarrow> Completed | _ \<Rightarrow> s)"

text \<open>
  \<open>observable.subscribe(() => {}, reject, resolve)\<close>: the Promise that \<open>dispatch\<close> returns.
\<close>

datatype promise = Pending | Resolved | Rejected string

definition promise_of :: "status \<Rightarrow> promise" where
  "promise_of s =
     (case s of Running \<Rightarrow> Pending | Completed \<Rightarrow> Resolved | Failed err \<Rightarrow> Rejected err)"

text \<open>The body of \<open>dispatch\<close> from the creation of the Observable on, for the handlers found.\<close>

definition dispatch_to :: "actionObserver list \<Rightarrow> action \<Rightarrow> nat list \<Rightarrow> reflux \<Rightarrow> reflux \<times> promise" where
  "dispatch_to hs a sched R =
     (let r = observable hs a sched R
      in (reflux.truncate r, promise_of (catch_empty (status r))))"

definition dispatch :: "action \<Rightarrow> nat list \<Rightarrow> reflux \<Rightarrow> reflux \<times> promise" where
  "dispatch a sched R =
     (let R0 = R\<lparr>lastAction := Some a\<rparr>;
          (i, R1) = identity a R0
      in case subscriptions R1 i of
           None \<Rightarrow> (R1, Resolved)
         | Some hs \<Rightarrow>
             if length hs = 0 then (R1, Resolved)
             else dispatch_to hs a sched R1)"

subsection \<open>StateStream.select\<close>

text \<open>
  The operator \<open>!==\<close> compares two objects, or two arrays, by reference, not by content.
  A value seen by \<open>select\<close> is therefore a \<open>jv\<close> together with the address of the object
  or array, which means nothing for any other value.
\<close>

type_synonym jsref = "nat \<times> jv"

definition undefined_ref :: jsref where
  "undefined_ref = (0, JUndefined)"

fun strict_equal :: "jsref \<Rightarrow> jsref \<Rightarrow> bool" where
  "strict_equal (p, JObj t x) (q, JObj t' y) = (p = q)"
| "strict_equal (p, JArr t x) (q, JArr t' y) = (p = q)"
| "strict_equal (p, x) (q, y) = (x = y)"

text \<open>
  A selector returns a value or throws (\<open>None\<close>); the argument \<open>selector\<close> of \<open>select\<close>
  may itself be undefined (\<open>None\<close>).
\<close>

type_synonym stateSelector = "jsref \<Rightarrow> jsref option"

definition select :: "jsref \<Rightarrow> stateSelector option \<Rightarrow> jsref" where
  "select st selector =
     (if is_undefined (snd st) then undefined_ref
      else (case selector of
              None \<Rightarrow> st
            | Some f \<Rightarrow> (case f st of None \<Rightarrow> undefined_ref | Some v \<Rightarrow> v)))"

text \<open>
  One subscription to \<open>stateStream.select(selector)\<close>: the variable \<open>previousState\<close> of
  the closure, and the values handed to \<open>subscriber.next\<close> so far.
\<close>

record selection =
  previousState :: jsref
  delivered :: "jsref list"

text \<open>The callback that \<open>select\<close> subscribes to the state stream.\<close>

definition select_next :: "stateSelector option \<Rightarrow> jsref \<Rightarrow> selection \<Rightarrow> selection" where
  "select_next selector st sub =
     (let selection = select st selector in
      if \<not> strict_equal selection (select (previousState sub) selector)
      then sub\<lparr>previousState := st, delivered := delivered sub @ [selection]\<rparr>
      else sub)"

text \<open>
  Subscribing: \<open>previousState\<close> starts undefined, and the state stream, a
  BehaviorSubject, hands its current value to the new subscriber at once.
\<close>

definition select_subscribe :: "stateSelector option \<Rightarrow> jsref \<Rightarrow> selection" where
  "select_subscribe selector current =
     select_next selector current \<lparr>previousState = undefined_ref, delivered = []\<rparr>"

text \<open>The states published after the subscription, in order.\<close>

fun select_publish :: "stateSelector option \<Rightarrow> jsref list \<Rightarrow> selection \<Rightarrow> selection" where
  "select_publish selector [] sub = sub"
| "select_publish selector (st # sts) sub =
     select_publish selector sts (select_next selector st sub)"

text \<open>
  The selector \<open>s => s.count\<close>, for states whose property \<open>count\<close>, when there is
  one, holds a value that is not an object.
\<close>

definition count :: stateSelector where
  "count st =
     (case snd st of
        JObj t kvs \<Rightarrow> (case map_of kvs ''count'' of
                      None \<Rightarrow> Some undefined_ref
                    | Some x \<Rightarrow> Some (0, x))
      | _ \<Rightarrow> Some undefined_ref)"

text \<open>No two successive values of a list are strictly equal.\<close>

fun changes :: "jsref list \<Rightarrow> bool" where
  "changes (x # y # zs) = (\<not> strict_equal x y \<and> changes (y # zs))"
| "changes zs = True"

subsection \<open>The life of the process\<close>

text \<open>
  The namespace is private to the module: it changes only through the identity getter,
  \<open>subscribe\<close> and \<open>dispatch\<close>. A process is a sequence of such calls.
\<close>

datatype call =
    GetIdentity action
  | Subscribe actionObserver action
  | Dispatch action "nat list"

fun perform :: "call \<Rightarrow> reflux \<Rightarrow> reflux" where
  "perform (GetIdentity a) R = snd (identity a R)"
| "perform (Subscribe h a) R = subscribe h a R"
| "perform (Dispatch a sched) R = fst (dispatch a sched R)"

fun process :: "call list \<Rightarrow> reflux \<Rightarrow> reflux" where
  "process [] R = R"
| "process (c # cs) R = process cs (perform c R)"

subsection \<open>Handlers with a fixed result, and results taken in a given order\<close>

text \<open>
  A handler that returns \<open>Observable.of(e)\<close>, whose result is there as soon as
  \<open>flatMap\<close> subscribes; a handler whose Observable sends its one result and completes
  only later; a handler that throws.
\<close>

definition emits_now :: "emitted \<Rightarrow> actionObserver" where
  "emits_now e = (\<lambda>s a. Observable [Next e, Complete] [])"

definition emits_later :: "emitted \<Rightarrow> actionObserver" where
  "emits_later e = (\<lambda>s a. Observable [] [Next e, Complete])"

definition throws :: "string \<Rightarrow> actionObserver" where
  "throws err = (\<lambda>s a. Throws err)"

text \<open>
  A handler whose Observable sends nothing at once and an error later; a handler whose
  Observable sends a result and then an error at once.
\<close>

definition fails_later :: "string \<Rightarrow> actionObserver" where
  "fails_later err = (\<lambda>s a. Observable [] [Error err])"

definition emits_then_fails :: "emitted \<Rightarrow> string \<Rightarrow> actionObserver" where
  "emits_then_fails e err = (\<lambda>s a. Observable [Next e, Error err] [])"

text \<open>
  The state obtained from \<open>s\<close> by the first \<open>map\<close> of \<open>dispatch\<close> applied to the
  results \<open>es\<close> one after the other, up to the first one on which \<open>merge\<close> throws.
\<close>

fun merge_all :: "jv \<Rightarrow> emitted list \<Rightarrow> jv" where
  "merge_all s [] = s"
| "merge_all s (e # es) =
     (case merge_or_replace s e of
        Inl err \<Rightarrow> s
      | Inr (s', out) \<Rightarrow> merge_all s' es)"

text \<open>
  The handlers among the \<open>n\<close> registered ones, in the order in which a schedule lets
  each of them send for the first time; \<open>seen\<close> are those that have already sent.
\<close>

fun first_arrivals :: "nat \<Rightarrow> nat list \<Rightarrow> nat list \<Rightarrow> nat list" where
  "first_arrivals n seen [] = []"
| "first_arrivals n seen (k # ks) =
     (if k < n \<and> k \<notin> set seen then k # first_arrivals n (k # seen) ks
      else first_arrivals n seen ks)"

section \<open>Properties\<close>

subsection \<open>The identity table\<close>


lemma indexOf_ge: "- 1 \<le> indexOf xs x"
  by (induction xs) (auto simp: Let_def)

lemma indexOf_neg_iff: "indexOf xs x < 0 \<longleftrightarrow> x \<notin> set xs"
  using indexOf_ge [of _ x] by (induction xs) (auto simp: Let_def)

lemma indexOf_append: "x \<in> set xs \<Longrightarrow> indexOf (xs @ ys) x = indexOf xs x"
  by (induction xs) (auto simp: Let_def indexOf_neg_iff)

lemma identity_table:
  "actionIdentities (snd (identity a R)) =
     (if ctor a \<in> set (actionIdentities R) then actionIdentities R
      else actionIdentities R @ [ctor a])"
  by (simp add: identity_def Let_def indexOf_neg_iff)

lemma identity_name:
  "fst (identity a R) =
     CHR ''c'' # show_nat (nat (indexOf (if ctor a \<in> set (actionIdentities R) then actionIdentities R
      else actionIdentities R @ [ctor a]) (ctor a)))"
  by (simp add: identity_def Let_def indexOf_neg_iff)

lemma identity_known:
  "ctor a \<in> set (actionIdentities (snd (identity a R)))"
  by (simp add: identity_table)

lemma identity_prefix: "prefix (actionIdentities R) (actionIdentities (snd (identity a R)))"
  by (simp add: identity_table)

lemma identity_after_growth:
  assumes "ctor a \<in> set (actionIdentities R)" "prefix (actionIdentities R) (actionIdentities R')"
  shows "fst (identity a R') = fst (identity a R)"
proof -
  from assms(2) obtain ys where ys: "actionIdentities R' = actionIdentities R @ ys"
    by (auto simp: prefix_def)
  with assms(1) show ?thesis
    by (simp add: identity_name indexOf_append)
qed

lemma identity_twice: "fst (identity a (snd (identity a R))) = fst (identity a R)"
  by (simp add: identity_name identity_table indexOf_append)


lemma on_next_ids: "actionIdentities (on_next n e r) = actionIdentities r"
  by (simp add: on_next_def Let_def split: sum.splits prod.splits)

lemma deliver_sync_ids: "actionIdentities (deliver_sync n ns later r) = actionIdentities r"
  by (induction n ns later r rule: deliver_sync.induct) (simp_all add: Let_def on_next_ids)

lemma flatMap_ids: "actionIdentities (flatMap n hs a r) = actionIdentities r"
  by (induction n hs a r rule: flatMap.induct)
     (simp_all add: Let_def deliver_sync_ids split: returned.splits)

lemma settle_ids: "actionIdentities (settle r) = actionIdentities r"
  by (simp add: settle_def)

lemma arrive_ids: "actionIdentities (arrive n k r) = actionIdentities r"
  by (simp add: arrive_def on_next_ids settle_ids
           split: option.splits list.splits notification.splits)

lemma arrivals_ids: "actionIdentities (arrivals n ks r) = actionIdentities r"
  by (induction n ks r rule: arrivals.induct) (simp_all add: arrive_ids)

lemma observable_ids: "actionIdentities (observable hs a sched R) = actionIdentities R"
  by (simp add: observable_def subscribed_def arrivals_ids settle_ids flatMap_ids reflux.extend_def)

lemma dispatch_to_ids: "actionIdentities (fst (dispatch_to hs a sched R)) = actionIdentities R"
  by (simp add: dispatch_to_def Let_def reflux.truncate_def observable_ids)

lemma dispatch_ids:
  "actionIdentities (fst (dispatch a sched R)) = actionIdentities (snd (identity a R))"
proof -
  obtain i R1 where 1: "identity a (R\<lparr>lastAction := Some a\<rparr>) = (i, R1)"
    by (cases "identity a (R\<lparr>lastAction := Some a\<rparr>)")
  have "actionIdentities (snd (identity a (R\<lparr>lastAction := Some a\<rparr>)))
          = actionIdentities (snd (identity a R))"
    by (simp add: identity_table)
  then have "actionIdentities R1 = actionIdentities (snd (identity a R))"
    using 1 by simp
  then show ?thesis
    using 1 by (simp add: dispatch_def Let_def dispatch_to_ids split: option.splits)
qed

lemma identity_pushes_ids:
  "identity a R = (k, R3) \<Longrightarrow>
   actionIdentities (R3\<lparr>subscriptions := f\<rparr>) = actionIdentities (snd (identity a R))"
  by simp

lemma subscribe_ids:
  "actionIdentities (subscribe h a R) = actionIdentities (snd (identity a R))"
proof -
  obtain i R1 where 1: "identity a R = (i, R1)" by (cases "identity a R")
  obtain j R' where 2: "identity a R1 = (j, R')" by (cases "identity a R1")
  have k1: "ctor a \<in> set (actionIdentities R1)"
    using identity_known [of a R] 1 by simp
  have e2: "actionIdentities R' = actionIdentities R1"
    using identity_table [of a R1] 2 k1 by simp
  define R2 where "R2 = (if subscriptions R1 i = None
        then R'\<lparr>subscriptions := (subscriptions R')(j \<mapsto> [])\<rparr> else R1)"
  have e3: "actionIdentities R2 = actionIdentities R1"
    by (simp add: R2_def e2)
  obtain k R3 where 3: "identity a R2 = (k, R3)" by (cases "identity a R2")
  have e4: "actionIdentities R3 = actionIdentities R1"
    using identity_table [of a R2] 3 k1 e3 by simp
  have "subscribe h a R =
          R3\<lparr>subscriptions := (subscriptions R3)(k \<mapsto> (case subscriptions R3 k of
                                          None \<Rightarrow> [h] | Some hs \<Rightarrow> hs @ [h]))\<rparr>"
    unfolding subscribe_def Let_def 1 2 prod.case R2_def [symmetric] 3 ..
  then show ?thesis
    using 1 e4 by simp
qed

lemma perform_prefix: "prefix (actionIdentities R) (actionIdentities (perform c R))"
  by (cases c) (simp_all add: subscribe_ids dispatch_ids identity_prefix)

lemma process_prefix: "prefix (actionIdentities R) (actionIdentities (process cs R))"
proof (induction cs arbitrary: R)
  case Nil
  show ?case by simp
next
  case (Cons c cs)
  have "prefix (actionIdentities R) (actionIdentities (perform c R))"
    by (rule perform_prefix)
  also have "prefix \<dots> (actionIdentities (process cs (perform c R)))"
    by (rule Cons.IH)
  finally show ?case by simp
qed

text \<open>
  Claim C9. Two action instances of the same class get the same identity from the
  identity getter at every point of the life of the process: once the class of \<open>a\<close> has
  its entry, whatever calls follow, an instance \<open>b\<close> of the same class reads the identity
  that \<open>a\<close> read. The identity table only grows: the table at any earlier moment is a
  prefix of the table at any later one, so that no entry is removed or reassigned. Both
  instances therefore look up the same handler list.
\<close>
theorem identity_stable:
  assumes "ctor a = ctor b"
  shows "fst (identity b (process cs (snd (identity a R)))) = fst (identity a R)
       \<and> prefix (actionIdentities R) (actionIdentities (process cs R))
       \<and> (let R' = process cs (snd (identity a R)) in
            subscriptions (snd (identity a R')) (fst (identity a R'))
              = subscriptions (snd (identity b R')) (fst (identity b R')))"
proof -
  let ?R1 = "snd (identity a R)"
  let ?R' = "process cs ?R1"
  have same: "identity b S = identity a S" for S
    unfolding identity_def assms ..
  have "fst (identity a ?R') = fst (identity a ?R1)"
    by (rule identity_after_growth [OF identity_known process_prefix])
  then have 1: "fst (identity b ?R') = fst (identity a R)"
    by (simp add: same identity_twice)
  show ?thesis
    using 1 process_prefix [of R cs] by (simp add: same Let_def)
qed

theorem identity_stable_witness:
  "ctor \<lparr>ctor = 7, payload = JNum 1\<rparr> = ctor \<lparr>ctor = 7, payload = JNum 2\<rparr>
   \<and> fst (identity \<lparr>ctor = 7, payload = JNum 2\<rparr>
        (process [GetIdentity \<lparr>ctor = 3, payload = JNull\<rparr>,
                  Dispatch \<lparr>ctor = 5, payload = JNull\<rparr> []]
           (snd (identity \<lparr>ctor = 7, payload = JNum 1\<rparr> Reflux_init)))) = ''c0''"
proof -
  have h: "ctor \<lparr>ctor = 7, payload = JNum 1\<rparr> = ctor \<lparr>ctor = 7, payload = JNum 2\<rparr>"
    by simp
  have e: "fst (identity \<lparr>ctor = 7, payload = JNum 1\<rparr> Reflux_init) = ''c0''"
    by code_simp
  have "fst (identity \<lparr>ctor = 7, payload = JNum 2\<rparr>
        (process [GetIdentity \<lparr>ctor = 3, payload = JNull\<rparr>,
                  Dispatch \<lparr>ctor = 5, payload = JNull\<rparr> []]
           (snd (identity \<lparr>ctor = 7, payload = JNum 1\<rparr> Reflux_init))))
        = fst (identity \<lparr>ctor = 7, payload = JNum 1\<rparr> Reflux_init)"
    using identity_stable [OF h] by (rule conjunct1)
  with e h show ?thesis by (simp only: simp_thms)
qed


subsection \<open>A stopped chain\<close>

lemma arrive_stopped: "status r \<noteq> Running \<Longrightarrow> arrive n k r = r"
  by (simp add: arrive_def)

lemma arrivals_stopped: "status r \<noteq> Running \<Longrightarrow> arrivals n ks r = r"
  by (induction ks) (simp_all add: arrive_stopped)

lemma arrivals_append: "arrivals n (ks @ ks') r = arrivals n ks' (arrivals n ks r)"
  by (induction ks arbitrary: r) simp_all

lemma observable_append:
  "observable hs a (s1 @ s2) R = arrivals (length hs) s2 (observable hs a s1 R)"
  by (simp add: observable_def subscribed_def arrivals_append)

lemma flatMap_stopped: "status r \<noteq> Running \<Longrightarrow> flatMap n hs a r = r"
  by (cases hs) simp_all

lemma settle_stopped: "status r \<noteq> Running \<Longrightarrow> settle r = r"
  by (simp add: settle_def)

lemma truncate_start:
  "reflux.truncate ((reflux.extend R (run.fields i st ins cs))\<lparr>calls := cs', status := st'\<rparr>) = R"
  by (simp add: reflux.truncate_def reflux.extend_def)

subsection \<open>What is published\<close>

text \<open>
  Claim C4 fails on the code. Handler A returns \<open>{a: 1}\<close> and handler B returns
  \<open>undefined\<close>, no handler fails: \<open>{a: 1}\<close> is merged into \<open>Reflux.state\<close>, but nothing
  is pushed to the state stream, which still holds only its initial value, because the
  second \<open>map\<close> looks at the last result alone. With the same two handlers registered in
  the other order the same state is reached and it is published.
\<close>

theorem change_not_published:
  "state (fst (dispatch \<lparr>ctor = 0, payload = JNull\<rparr> []
      (subscribe (emits_now (Plain JUndefined)) \<lparr>ctor = 0, payload = JNull\<rparr>
        (subscribe (emits_now (Plain (JObj Mutable [(''a'', JNum 1)]))) \<lparr>ctor = 0, payload = JNull\<rparr>
           Reflux_init))))
     = JObj Immutable [(''a'', JNum 1)]
   \<and> stateStream (fst (dispatch \<lparr>ctor = 0, payload = JNull\<rparr> []
      (subscribe (emits_now (Plain JUndefined)) \<lparr>ctor = 0, payload = JNull\<rparr>
        (subscribe (emits_now (Plain (JObj Mutable [(''a'', JNum 1)]))) \<lparr>ctor = 0, payload = JNull\<rparr>
           Reflux_init))))
     = [JObj Immutable []]
   \<and> snd (dispatch \<lparr>ctor = 0, payload = JNull\<rparr> []
      (subscribe (emits_now (Plain JUndefined)) \<lparr>ctor = 0, payload = JNull\<rparr>
        (subscribe (emits_now (Plain (JObj Mutable [(''a'', JNum 1)]))) \<lparr>ctor = 0, payload = JNull\<rparr>
           Reflux_init)))
     = Resolved
   \<and> state (fst (dispatch \<lparr>ctor = 0, payload = JNull\<rparr> []
      (subscribe (emits_now (Plain (JObj Mutable [(''a'', JNum 1)]))) \<lparr>ctor = 0, payload = JNull\<rparr>
        (subscribe (emits_now (Plain JUndefined)) \<lparr>ctor = 0, payload = JNull\<rparr>
           Reflux_init))))
     = JObj Immutable [(''a'', JNum 1)]
   \<and> stateStream (fst (dispatch \<lparr>ctor = 0, payload = JNull\<rparr> []
      (subscribe (emits_now (Plain (JObj Mutable [(''a'', JNum 1)]))) \<lparr>ctor = 0, payload = JNull\<rparr>
        (subscribe (emits_now (Plain JUndefined)) \<lparr>ctor = 0, payload = JNull\<rparr>
           Reflux_init))))
     = [JObj Immutable [], JObj Immutable [(''a'', JNum 1)]]"
  by code_simp

subsection \<open>The state a handler is called with\<close>

lemma on_next_calls: "calls (on_next n e r) = calls r"
  by (simp add: on_next_def Let_def split: sum.splits prod.splits)

lemma deliver_sync_calls: "calls (deliver_sync n ns later r) = calls r"
  by (induction n ns later r rule: deliver_sync.induct) (simp_all add: Let_def on_next_calls)

lemma settle_calls: "calls (settle r) = calls r"
  by (simp add: settle_def)

lemma arrive_calls: "calls (arrive n k r) = calls r"
  by (simp add: arrive_def on_next_calls settle_calls
           split: option.splits list.splits notification.splits)

lemma arrivals_calls: "calls (arrivals n ks r) = calls r"
  by (induction n ks r rule: arrivals.induct) (simp_all add: arrive_calls)

lemma flatMap_calls_prefix: "prefix (calls r) (calls (flatMap n hs a r))"
proof (induction n hs a r rule: flatMap.induct)
  case (1 n a r)
  show ?case by simp
next
  case (2 n h hs a r)
  show ?case
  proof (cases "status r = Running")
    case False
    then show ?thesis by simp
  next
    case True
    show ?thesis
    proof (cases "h (state r) a")
      case (Throws err)
      with True show ?thesis by (simp add: Let_def)
    next
      case NotObservable
      with True show ?thesis by (simp add: Let_def)
    next
      case (Observable now later)
      let ?r1 = "r\<lparr>calls := calls r @ [state r]\<rparr>"
      have "prefix (calls (deliver_sync n now later ?r1))
              (calls (flatMap n hs a (deliver_sync n now later ?r1)))"
        using 2 True Observable by simp
      then have "prefix (calls r @ [state r]) (calls (flatMap n hs a (deliver_sync n now later ?r1)))"
        by (simp add: deliver_sync_calls)
      then have "prefix (calls r) (calls (flatMap n hs a (deliver_sync n now later ?r1)))"
        by (rule append_prefixD)
      with True Observable show ?thesis by (simp add: Let_def)
    qed
  qed
qed

lemma flatMap_nothing_now:
  assumes "\<forall>h\<in>set hs. \<forall>s. \<exists>later. h s a = Observable [] later"
    and "status r = Running"
  shows "calls (flatMap n hs a r) = calls r @ replicate (length hs) (state r)"
  using assms
proof (induction hs arbitrary: r)
  case Nil
  then show ?case by simp
next
  case (Cons h hs)
  from Cons.prems(1) have "\<forall>s. \<exists>later. h s a = Observable [] later"
    by simp
  then obtain later where l: "h (state r) a = Observable [] later"
    by blast
  let ?r' = "r\<lparr>calls := calls r @ [state r], inners := inners r @ [Some later]\<rparr>"
  have "calls (flatMap n hs a ?r') = calls ?r' @ replicate (length hs) (state ?r')"
    using Cons.prems by (intro Cons.IH) simp_all
  then show ?case
    using Cons.prems(2) l by (simp add: Let_def replicate_app_Cons_same)
qed

lemma calls_nothing_now:
  assumes "\<forall>h\<in>set hs. \<forall>s. \<exists>later. h s a = Observable [] later"
  shows "calls (observable hs a sched R) = replicate (length hs) (state R)"
  using flatMap_nothing_now [OF assms, of "reflux.extend R (run.fields 0 Running [] [])" "length hs"]
  by (simp add: observable_def subscribed_def arrivals_calls settle_calls reflux.extend_def run.fields_def)

lemma deliver_one_now:
  assumes "merge_or_replace (state r) e = Inr (s', out)"
  shows "status (deliver_sync n [Next e, Complete] [] r) = status r
       \<and> state (deliver_sync n [Next e, Complete] [] r) = s'
       \<and> calls (deliver_sync n [Next e, Complete] [] r) = calls r"
  using assms by (simp add: on_next_def Let_def)

lemma second_call_sees_first_result:
  assumes "merge_or_replace (state R) e = Inr (s', out)"
  shows "take 2 (calls (observable (emits_now e # h # hs) a sched R)) = [state R, s']"
proof -
  define n where "n = Suc (Suc (length hs))"
  define r1 where "r1 = (reflux.extend R (run.fields 0 Running [] []))\<lparr>calls := [state R]\<rparr>"
  define r2 where "r2 = deliver_sync n [Next e, Complete] [] r1"
  have s1: "state r1 = state R" "status r1 = Running" "calls r1 = [state R]"
    by (simp_all add: r1_def reflux.extend_def run.fields_def)
  have r2: "status r2 = Running" "state r2 = s'" "calls r2 = [state R]"
    using deliver_one_now [of r1 e s' out n] assms by (simp_all add: r2_def s1)
  have "prefix [state R, s'] (calls (flatMap n (h # hs) a r2))"
  proof (cases "h s' a")
    case (Throws err)
    then show ?thesis using r2 by (simp add: Let_def)
  next
    case NotObservable
    then show ?thesis using r2 by (simp add: Let_def)
  next
    case (Observable now later)
    define r3 where "r3 = deliver_sync n now later (r2\<lparr>calls := calls r2 @ [state r2]\<rparr>)"
    have "prefix (calls r3) (calls (flatMap n hs a r3))"
      by (rule flatMap_calls_prefix)
    moreover have "calls r3 = [state R, s']"
      by (simp add: r3_def deliver_sync_calls r2)
    moreover have "flatMap n (h # hs) a r2 = flatMap n hs a r3"
      using Observable r2 by (simp add: Let_def r3_def)
    ultimately show ?thesis
      by simp
  qed
  moreover have "flatMap n (emits_now e # h # hs) a (reflux.extend R (run.fields 0 Running [] []))
      = flatMap n (h # hs) a r2"
    by (simp add: emits_now_def Let_def r2_def r1_def reflux.extend_def run.fields_def
             del: deliver_sync.simps)
  ultimately have "prefix [state R, s'] (calls (observable (emits_now e # h # hs) a sched R))"
    by (simp add: observable_def subscribed_def arrivals_calls settle_calls n_def del: flatMap.simps)
  then show ?thesis
    by (auto simp: prefix_def)
qed

text \<open>
  Claim C5, as amended. Every handler is called with \<open>Reflux.state\<close> as it is at the
  moment of its own call. When no handler's Observable sends anything while the handlers
  are being called (every result arrives later), all handlers get the same pre-dispatch
  state. A result that is there at once, as with \<open>Observable.of\<close>, is merged before the
  next handler is called, and that handler is called with the merged state.
\<close>

theorem handlers_called_with_current_state:
  "((\<forall>h\<in>set hs. \<forall>s. \<exists>later. h s a = Observable [] later) \<longrightarrow>
      calls (observable hs a sched R) = replicate (length hs) (state R))
   \<and> (merge_or_replace (state R) e = Inr (s', out) \<longrightarrow>
      take 2 (calls (observable (emits_now e # h' # hs) a sched R)) = [state R, s'])"
  using calls_nothing_now [of hs a sched R] second_call_sees_first_result [of R e s' out h' hs a sched]
  by blast

theorem handlers_called_with_current_state_witness:
  "merge_or_replace (state Reflux_init) (Plain (JObj Mutable [(''a'', JNum 1)]))
       = Inr (JObj Immutable [(''a'', JNum 1)], JObj Mutable [(''a'', JNum 1)])
   \<and> calls (observable
        [emits_later (Plain (JObj Mutable [(''a'', JNum 1)])), emits_later (Plain (JObj Mutable [(''b'', JNum 2)]))]
        \<lparr>ctor = 0, payload = JNull\<rparr> [0, 1, 0, 1] Reflux_init)
       = replicate (length [emits_later (Plain (JObj Mutable [(''a'', JNum 1)])),
                            emits_later (Plain (JObj Mutable [(''b'', JNum 2)]))]) (state Reflux_init)
   \<and> take 2 (calls (observable
        (emits_now (Plain (JObj Mutable [(''a'', JNum 1)])) # throws ''boom'' #
         [emits_later (Plain (JObj Mutable [(''a'', JNum 1)])), emits_later (Plain (JObj Mutable [(''b'', JNum 2)]))])
        \<lparr>ctor = 0, payload = JNull\<rparr> [0, 1, 0, 1] Reflux_init))
       = [state Reflux_init, JObj Immutable [(''a'', JNum 1)]]"
proof -
  have h1: "\<forall>h\<in>set [emits_later (Plain (JObj Mutable [(''a'', JNum 1)])), emits_later (Plain (JObj Mutable [(''b'', JNum 2)]))].
      \<forall>s. \<exists>later. h s \<lparr>ctor = 0, payload = JNull\<rparr> = Observable [] later"
    by (simp add: emits_later_def)
  have h2: "merge_or_replace (state Reflux_init) (Plain (JObj Mutable [(''a'', JNum 1)]))
       = Inr (JObj Immutable [(''a'', JNum 1)], JObj Mutable [(''a'', JNum 1)])"
    by code_simp
  note t = handlers_called_with_current_state
    [where hs = "[emits_later (Plain (JObj Mutable [(''a'', JNum 1)])), emits_later (Plain (JObj Mutable [(''b'', JNum 2)]))]"
       and a = "\<lparr>ctor = 0, payload = JNull\<rparr>" and sched = "[0, 1, 0, 1]" and R = Reflux_init
       and e = "Plain (JObj Mutable [(''a'', JNum 1)])" and s' = "JObj Immutable [(''a'', JNum 1)]"
       and out = "JObj Mutable [(''a'', JNum 1)]" and h' = "throws ''boom''"]
  from t h1 h2 show ?thesis by blast
qed

text \<open>
  Claim C5 as the spec states it fails: handlers A and B both return their result with
  \<open>Observable.of\<close>; A is called with the pre-dispatch state \<open>{}\<close>, B with \<open>{a: 1}\<close>,
  the state merged with A's result.
\<close>

theorem second_handler_sees_merged_state:
  "calls (observable
     [emits_now (Plain (JObj Mutable [(''a'', JNum 1)])), emits_now (Plain (JObj Mutable [(''b'', JNum 2)]))]
     \<lparr>ctor = 0, payload = JNull\<rparr> [] Reflux_init)
   = [JObj Immutable [], JObj Immutable [(''a'', JNum 1)]]"
  by code_simp


subsection \<open>The order in which results are merged\<close>

lemma on_next_state:
  "state (on_next n e r) = (case merge_or_replace (state r) e of Inl err \<Rightarrow> state r | Inr (s', out) \<Rightarrow> s')"
  by (simp add: on_next_def Let_def split: sum.splits prod.splits)

lemma on_next_status:
  "status (on_next n e r) =
     (case merge_or_replace (state r) e of Inl err \<Rightarrow> Failed err | Inr p \<Rightarrow> status r)"
  by (simp add: on_next_def Let_def split: sum.splits prod.splits)

lemma on_next_inners: "inners (on_next n e r) = inners r"
  by (simp add: on_next_def Let_def split: sum.splits prod.splits)

lemma settle_state: "state (settle r) = state r"
  by (simp add: settle_def)

lemma settle_inners: "inners (settle r) = inners r"
  by (simp add: settle_def)

lemma arrive_all_done: "list_all (\<lambda>i. i = None) (inners r) \<Longrightarrow> arrive n k r = r"
  by (simp add: arrive_def list_all_length)

lemma arrivals_all_done: "list_all (\<lambda>i. i = None) (inners r) \<Longrightarrow> arrivals n ks r = r"
  by (induction ks) (simp_all add: arrive_all_done)

text \<open>Handlers whose results are there at once: registration order.\<close>

lemma flatMap_emits_now:
  assumes "status r = Running" "list_all (\<lambda>i. i = None) (inners r)"
  shows "state (flatMap n (map emits_now es) a r) = merge_all (state r) es
       \<and> (status (flatMap n (map emits_now es) a r) = Running \<longrightarrow>
            list_all (\<lambda>i. i = None) (inners (flatMap n (map emits_now es) a r)))"
  using assms
proof (induction es arbitrary: r)
  case Nil
  then show ?case by simp
next
  case (Cons e es)
  define r1 where "r1 = r\<lparr>calls := calls r @ [state r]\<rparr>"
  have r1: "state r1 = state r" "status r1 = Running" "inners r1 = inners r"
    using Cons.prems by (simp_all add: r1_def)
  have step: "flatMap n (map emits_now (e # es)) a r
      = flatMap n (map emits_now es) a (deliver_sync n [Next e, Complete] [] r1)"
    using Cons.prems(1) by (simp add: emits_now_def Let_def r1_def del: deliver_sync.simps)
  show ?case
  proof (cases "merge_or_replace (state r) e")
    case (Inl err)
    then have d: "deliver_sync n [Next e, Complete] [] r1 = r1\<lparr>status := Failed err\<rparr>"
      by (simp add: on_next_def r1 Let_def)
    show ?thesis
      unfolding step d using Inl by (simp add: flatMap_stopped r1)
  next
    case (Inr p)
    obtain s' out where p: "p = (s', out)" by (cases p)
    define r2 where "r2 = deliver_sync n [Next e, Complete] [] r1"
    have r2: "status r2 = Running" "state r2 = s'" "list_all (\<lambda>i. i = None) (inners r2)"
      using Inr p Cons.prems(2)
      by (simp_all add: r2_def on_next_status on_next_state on_next_inners r1 Let_def)
    from Cons.IH [OF r2(1) r2(3)] show ?thesis
      unfolding step r2_def [symmetric] using Inr p r2(2) by simp
  qed
qed

lemma state_emits_now:
  "state (observable (map emits_now es) a sched R) = merge_all (state R) es"
proof -
  define r0 where "r0 = reflux.extend R (run.fields 0 Running [] [])"
  define r where "r = flatMap (length es) (map emits_now es) a r0"
  have r0: "status r0 = Running" "list_all (\<lambda>i. i = None) (inners r0)" "state r0 = state R"
    by (simp_all add: r0_def reflux.extend_def run.fields_def)
  note f = flatMap_emits_now [OF r0(1) r0(2), of "length es" es a, folded r_def]
  have "arrivals (length es) sched (settle r) = settle r"
  proof (cases "status r = Running")
    case True
    with f have "list_all (\<lambda>i. i = None) (inners (settle r))"
      by (simp add: settle_inners)
    then show ?thesis by (rule arrivals_all_done)
  next
    case False
    then have "status (settle r) \<noteq> Running" by (simp add: settle_def)
    then show ?thesis by (rule arrivals_stopped)
  qed
  then show ?thesis
    using f by (simp add: observable_def subscribed_def r_def [symmetric] r0_def [symmetric] settle_state r0)
qed


text \<open>Handlers whose results arrive later: arrival order.\<close>

lemma first_arrivals_done: "\<forall>k<n. k \<in> set seen \<Longrightarrow> first_arrivals n seen ks = []"
  by (induction ks) simp_all

lemma arrivals_emits_later:
  assumes "status r = Running"
    and "length (inners r) = length es"
    and "\<forall>k<length es. k \<notin> set seen \<longrightarrow> inners r ! k = Some [Next (es ! k), Complete]"
    and "\<forall>k<length es. k \<in> set seen \<longrightarrow> inners r ! k = Some [Complete] \<or> inners r ! k = None"
  shows "state (arrivals (length es) sched r)
       = merge_all (state r) (map ((!) es) (first_arrivals (length es) seen sched))"
  using assms
proof (induction sched arbitrary: r seen)
  case Nil
  show ?case by simp
next
  case (Cons k ks)
  note run = Cons.prems(1) and len = Cons.prems(2) and new = Cons.prems(3) and old = Cons.prems(4)
  show ?case
  proof (cases "k < length es")
    case False
    then have "arrive (length es) k r = r"
      using len by (simp add: arrive_def)
    with False Cons.IH [OF run len new old] show ?thesis by simp
  next
    case k: True
    show ?thesis
    proof (cases "k \<in> set seen")
      case False
      with k new have ik: "inners r ! k = Some [Next (es ! k), Complete]" by simp
      define r1 where "r1 = r\<lparr>inners := (inners r)[k := Some [Complete]]\<rparr>"
      have a: "arrive (length es) k r = on_next (length es) (es ! k) r1"
        using run len k ik by (simp add: arrive_def r1_def)
      have r1: "state r1 = state r" "status r1 = Running"
               "inners r1 = (inners r)[k := Some [Complete]]"
        using run by (simp_all add: r1_def)
      show ?thesis
      proof (cases "merge_or_replace (state r) (es ! k)")
        case (Inl err)
        then have "status (on_next (length es) (es ! k) r1) \<noteq> Running"
                  "state (on_next (length es) (es ! k) r1) = state r"
          by (simp_all add: on_next_status on_next_state r1)
        then have "state (arrivals (length es) ks (on_next (length es) (es ! k) r1)) = state r"
          by (simp add: arrivals_stopped)
        with Inl k False a show ?thesis by simp
      next
        case (Inr p)
        obtain s' out where p: "p = (s', out)" by (cases p)
        define r2 where "r2 = on_next (length es) (es ! k) r1"
        have r2: "status r2 = Running" "state r2 = s'"
                 "inners r2 = (inners r)[k := Some [Complete]]"
          using Inr p by (simp_all add: r2_def on_next_status on_next_state on_next_inners r1)
        have len2: "length (inners r2) = length es"
          using len by (simp add: r2)
        have new2: "\<forall>j<length es. j \<notin> set (k # seen) \<longrightarrow>
                      inners r2 ! j = Some [Next (es ! j), Complete]"
        proof (intro allI impI)
          fix j assume j: "j < length es" "j \<notin> set (k # seen)"
          then have "j \<noteq> k" "j \<notin> set seen" by auto
          with j new show "inners r2 ! j = Some [Next (es ! j), Complete]"
            by (simp add: r2)
        qed
        have old2: "\<forall>j<length es. j \<in> set (k # seen) \<longrightarrow>
                      inners r2 ! j = Some [Complete] \<or> inners r2 ! j = None"
        proof (intro allI impI)
          fix j assume j: "j < length es" "j \<in> set (k # seen)"
          show "inners r2 ! j = Some [Complete] \<or> inners r2 ! j = None"
          proof (cases "j = k")
            case True
            then show ?thesis using len j(1) by (simp add: r2)
          next
            case False
            with j old have "inners r ! j = Some [Complete] \<or> inners r ! j = None" by simp
            with False show ?thesis by (simp add: r2)
          qed
        qed
        from Cons.IH [OF r2(1) len2 new2 old2] show ?thesis
          using Inr p k False a by (simp add: r2_def [symmetric] r2)
      qed
    next
      case seen: True
      with k old have "inners r ! k = Some [Complete] \<or> inners r ! k = None" by simp
      then show ?thesis
      proof
        assume "inners r ! k = None"
        then have "arrive (length es) k r = r"
          using run len k by (simp add: arrive_def)
        with seen Cons.IH [OF run len new old] show ?thesis by simp
      next
        assume ik: "inners r ! k = Some [Complete]"
        define r1 where "r1 = r\<lparr>inners := (inners r)[k := None]\<rparr>"
        have a: "arrive (length es) k r = settle r1"
          using run len k ik by (simp add: arrive_def r1_def)
        have r1: "state r1 = state r" "status r1 = Running" "inners r1 = (inners r)[k := None]"
          using run by (simp_all add: r1_def)
        have len1: "length (inners r1) = length es"
          using len by (simp add: r1)
        have new1: "\<forall>j<length es. j \<notin> set seen \<longrightarrow>
                      inners r1 ! j = Some [Next (es ! j), Complete]"
        proof (intro allI impI)
          fix j assume j: "j < length es" "j \<notin> set seen"
          with seen have "j \<noteq> k" by auto
          with j new show "inners r1 ! j = Some [Next (es ! j), Complete]"
            by (simp add: r1)
        qed
        have old1: "\<forall>j<length es. j \<in> set seen \<longrightarrow>
                      inners r1 ! j = Some [Complete] \<or> inners r1 ! j = None"
        proof (intro allI impI)
          fix j assume j: "j < length es" "j \<in> set seen"
          show "inners r1 ! j = Some [Complete] \<or> inners r1 ! j = None"
          proof (cases "j = k")
            case True
            then show ?thesis using len j(1) by (simp add: r1)
          next
            case False
            with j old have "inners r ! j = Some [Complete] \<or> inners r ! j = None" by simp
            with False show ?thesis by (simp add: r1)
          qed
        qed
        show ?thesis
        proof (cases "list_all (\<lambda>i. i = None) (inners r1)")
          case True
          then have "status (settle r1) \<noteq> Running" "state (settle r1) = state r"
            by (simp_all add: settle_def r1)
          then have l: "state (arrivals (length es) ks (settle r1)) = state r"
            by (simp add: arrivals_stopped)
          have "\<forall>j<length es. j \<in> set seen"
          proof (intro allI impI, rule ccontr)
            fix j assume j: "j < length es" "j \<notin> set seen"
            with new1 have "inners r1 ! j = Some [Next (es ! j), Complete]" by simp
            moreover from True j(1) len1 have "inners r1 ! j = None"
              by (simp add: list_all_length)
            ultimately show False by simp
          qed
          then have "first_arrivals (length es) seen ks = []"
            by (rule first_arrivals_done)
          with l seen a show ?thesis by simp
        next
          case False
          then have s: "settle r1 = r1" by (simp add: settle_def)
          from Cons.IH [OF r1(2) len1 new1 old1] show ?thesis
            using seen a by (simp add: s r1)
        qed
      qed
    qed
  qed
qed

lemma flatMap_emits_later:
  assumes "status r = Running"
  shows "flatMap n (map emits_later es) a r
       = r\<lparr>calls := calls r @ replicate (length es) (state r),
            inners := inners r @ map (\<lambda>e. Some [Next e, Complete]) es\<rparr>"
  using assms
proof (induction es arbitrary: r)
  case Nil
  show ?case by simp
next
  case (Cons e es)
  define r1 where "r1 = r\<lparr>calls := calls r @ [state r], inners := inners r @ [Some [Next e, Complete]]\<rparr>"
  have "flatMap n (map emits_later (e # es)) a r = flatMap n (map emits_later es) a r1"
    using Cons.prems by (simp add: emits_later_def Let_def r1_def)
  also have "\<dots> = r1\<lparr>calls := calls r1 @ replicate (length es) (state r1),
            inners := inners r1 @ map (\<lambda>e. Some [Next e, Complete]) es\<rparr>"
    using Cons.prems by (intro Cons.IH) (simp add: r1_def)
  finally show ?case
    by (simp add: r1_def replicate_app_Cons_same)
qed

lemma state_emits_later:
  "state (observable (map emits_later es) a sched R)
     = merge_all (state R) (map ((!) es) (first_arrivals (length es) [] sched))"
proof -
  define r0 where "r0 = reflux.extend R (run.fields 0 Running [] [])"
  define r where "r = r0\<lparr>calls := calls r0 @ replicate (length es) (state r0),
            inners := inners r0 @ map (\<lambda>e. Some [Next e, Complete]) es\<rparr>"
  have r0: "status r0 = Running" "inners r0 = []" "state r0 = state R"
    by (simp_all add: r0_def reflux.extend_def run.fields_def)
  have f: "flatMap (length es) (map emits_later es) a r0 = r"
    using flatMap_emits_later [OF r0(1)] by (simp add: r_def)
  have r: "status r = Running" "state r = state R"
          "inners r = map (\<lambda>e. Some [Next e, Complete]) es"
    by (simp_all add: r_def r0)
  have o: "observable (map emits_later es) a sched R = arrivals (length es) sched (settle r)"
    by (simp add: observable_def subscribed_def r0_def [symmetric] f)
  show ?thesis
  proof (cases "es = []")
    case True
    then have "status (settle r) \<noteq> Running" "state (settle r) = state R"
      by (simp_all add: settle_def r)
    then have "state (arrivals (length es) sched (settle r)) = state R"
      by (simp add: arrivals_stopped)
    moreover have "first_arrivals (length es) [] sched = []"
      using True by (intro first_arrivals_done) simp
    ultimately show ?thesis by (simp add: o)
  next
    case False
    then have "\<not> list_all (\<lambda>i. i = None) (inners r)"
      by (cases es) (simp_all add: r)
    then have s: "settle r = r" by (simp add: settle_def)
    have "state (arrivals (length es) sched r)
       = merge_all (state r) (map ((!) es) (first_arrivals (length es) [] sched))"
      by (rule arrivals_emits_later) (simp_all add: r)
    then show ?thesis by (simp add: o s r)
  qed
qed

text \<open>
  Claim C3, as amended. With a fixed pre-dispatch state and a fixed result per
  registered handler, the results are merged in the order in which they arrive. Results
  that are there at once (\<open>Observable.of\<close>) arrive in registration order, and the
  post-dispatch state is then the same whatever the timing. Results that arrive later
  are merged in their order of arrival, whatever the registration order.
\<close>

theorem results_merged_in_arrival_order:
  "state (observable (map emits_now es) a sched R) = merge_all (state R) es
   \<and> state (observable (map emits_later es) a sched R)
       = merge_all (state R) (map ((!) es) (first_arrivals (length es) [] sched))"
  using state_emits_now [of es a sched R] state_emits_later [of es a sched R] by simp

theorem results_merged_in_arrival_order_witness:
  "state (observable (map emits_now [Plain (JObj Mutable [(''x'', JNum 1)]), Plain (JObj Mutable [(''x'', JNum 2)])])
            \<lparr>ctor = 0, payload = JNull\<rparr> [1, 0, 0, 1] Reflux_init) = JObj Immutable [(''x'', JNum 2)]
   \<and> state (observable
            (map emits_later [Plain (JObj Mutable [(''x'', JNum 1)]), Plain (JObj Mutable [(''x'', JNum 2)])])
            \<lparr>ctor = 0, payload = JNull\<rparr> [1, 0, 0, 1] Reflux_init) = JObj Immutable [(''x'', JNum 1)]"
proof -
  have e1: "merge_all (state Reflux_init)
              [Plain (JObj Mutable [(''x'', JNum 1)]), Plain (JObj Mutable [(''x'', JNum 2)])]
            = JObj Immutable [(''x'', JNum 2)]"
    by code_simp
  have e2: "merge_all (state Reflux_init)
              (map ((!) [Plain (JObj Mutable [(''x'', JNum 1)]), Plain (JObj Mutable [(''x'', JNum 2)])])
                 (first_arrivals
                    (length [Plain (JObj Mutable [(''x'', JNum 1)]), Plain (JObj Mutable [(''x'', JNum 2)])])
                    [] [1, 0, 0, 1]))
            = JObj Immutable [(''x'', JNum 1)]"
    by code_simp
  note t = results_merged_in_arrival_order
    [where es = "[Plain (JObj Mutable [(''x'', JNum 1)]), Plain (JObj Mutable [(''x'', JNum 2)])]"
       and a = "\<lparr>ctor = 0, payload = JNull\<rparr>" and sched = "[1, 0, 0, 1]" and R = Reflux_init]
  from t show ?thesis unfolding e1 e2 .
qed

text \<open>
  Claim C3 as the spec states it fails: handler A, registered first, returns \<open>{x: 1}\<close>,
  handler B returns \<open>{x: 2}\<close>. When A's result arrives first the post-dispatch state is
  \<open>{x: 2}\<close>; when B's result arrives first it is \<open>{x: 1}\<close>.
\<close>

theorem post_state_depends_on_arrival_order:
  "state (fst (dispatch \<lparr>ctor = 0, payload = JNull\<rparr> [0, 1, 0, 1]
      (subscribe (emits_later (Plain (JObj Mutable [(''x'', JNum 2)]))) \<lparr>ctor = 0, payload = JNull\<rparr>
        (subscribe (emits_later (Plain (JObj Mutable [(''x'', JNum 1)]))) \<lparr>ctor = 0, payload = JNull\<rparr>
           Reflux_init))))
     = JObj Immutable [(''x'', JNum 2)]
   \<and> state (fst (dispatch \<lparr>ctor = 0, payload = JNull\<rparr> [1, 0, 0, 1]
      (subscribe (emits_later (Plain (JObj Mutable [(''x'', JNum 2)]))) \<lparr>ctor = 0, payload = JNull\<rparr>
        (subscribe (emits_later (Plain (JObj Mutable [(''x'', JNum 1)]))) \<lparr>ctor = 0, payload = JNull\<rparr>
           Reflux_init))))
     = JObj Immutable [(''x'', JNum 1)]"
  by code_simp


subsection \<open>A replacement that wraps undefined\<close>

lemma on_next_replace_undefined:
  "on_next n (ReplaceableState JUndefined) r = on_next n (Plain JUndefined) r"
  by (simp add: on_next_def merge_or_replace_def is_undefined_def)

lemma on_next_undefined_state:
  "state (on_next n (ReplaceableState JUndefined) r) = state r"
  by (simp add: on_next_def merge_or_replace_def is_undefined_def Let_def)

lemma on_next_undefined_stream:
  "stateStream (on_next n (ReplaceableState JUndefined) r) = stateStream r"
  by (simp add: on_next_def merge_or_replace_def is_undefined_def Let_def)

lemma flatMap_append:
  "flatMap n (hs @ hs') a r = flatMap n hs' a (flatMap n hs a r)"
proof (induction hs arbitrary: r)
  case Nil
  show ?case by simp
next
  case (Cons h hs)
  show ?case
  proof (cases "status r = Running")
    case False
    then show ?thesis by (simp add: flatMap_stopped)
  next
    case True
    then show ?thesis
      by (cases "h (state r) a") (simp_all add: Let_def Cons.IH flatMap_stopped)
  qed
qed

lemma flatMap_replace_undefined:
  "flatMap n (emits_now (ReplaceableState JUndefined) # hs) a r
     = flatMap n (emits_now (Plain JUndefined) # hs) a r"
  by (simp add: emits_now_def on_next_replace_undefined Let_def)

lemma observable_replace_undefined:
  "observable (hs @ emits_now (ReplaceableState JUndefined) # hs') a sched R
     = observable (hs @ emits_now (Plain JUndefined) # hs') a sched R"
  by (simp add: observable_def subscribed_def flatMap_append flatMap_replace_undefined del: flatMap.simps)

lemma dispatch_only_undefined:
  "dispatch_to [emits_now (ReplaceableState JUndefined)] a sched R = (R, Resolved)"
proof -
  define r0 where "r0 = reflux.extend R (run.fields 0 Running [] [])"
  define r where "r = r0\<lparr>calls := [state R], index := 1, inners := [None], status := Completed\<rparr>"
  have r0: "status r0 = Running" "state r0 = state R" "calls r0 = []" "inners r0 = []" "index r0 = 0"
    by (simp_all add: r0_def reflux.extend_def run.fields_def)
  have "settle (flatMap 1 [emits_now (ReplaceableState JUndefined)] a r0) = r"
    by (simp add: emits_now_def on_next_def merge_or_replace_def is_undefined_def
          Let_def settle_def r0 r_def)
  then have "observable [emits_now (ReplaceableState JUndefined)] a sched R = r"
    by (simp add: observable_def subscribed_def r0_def [symmetric] arrivals_stopped r_def del: flatMap.simps)
  moreover have "reflux.truncate r = R"
    by (simp add: r_def r0_def reflux.truncate_def reflux.extend_def)
  moreover have "status r = Completed"
    by (simp add: r_def)
  ultimately show ?thesis
    by (simp add: dispatch_to_def Let_def catch_empty_def promise_of_def)
qed

text \<open>
  Claim C10. A handler result that is a \<open>ReplaceableState\<close> wrapping \<open>undefined\<close> is a
  no-op: wherever it arrives it is treated exactly as a plain \<open>undefined\<close> result, it
  leaves \<open>Reflux.state\<close> as it is and pushes nothing to the state stream. A dispatch in
  which a handler returns it at once is the dispatch in which that handler returns a
  plain \<open>undefined\<close>, and a dispatch whose only handler returns it leaves the whole
  namespace unchanged and resolves.
\<close>

theorem replaceable_undefined_is_noop:
  "on_next n (ReplaceableState JUndefined) r = on_next n (Plain JUndefined) r
   \<and> state (on_next n (ReplaceableState JUndefined) r) = state r
   \<and> stateStream (on_next n (ReplaceableState JUndefined) r) = stateStream r
   \<and> observable (hs @ emits_now (ReplaceableState JUndefined) # hs') a sched R
       = observable (hs @ emits_now (Plain JUndefined) # hs') a sched R
   \<and> dispatch_to [emits_now (ReplaceableState JUndefined)] a sched R = (R, Resolved)"
  using on_next_replace_undefined [of n r] on_next_undefined_state [of n r]
    on_next_undefined_stream [of n r] observable_replace_undefined [of hs hs' a sched R]
    dispatch_only_undefined [of a sched R]
  by simp

theorem replaceable_undefined_is_noop_witness:
  "state (fst (dispatch_to [emits_now (ReplaceableState JUndefined)]
      \<lparr>ctor = 0, payload = JNull\<rparr> [] Reflux_init)) = JObj Immutable []
   \<and> stateStream (fst (dispatch_to [emits_now (ReplaceableState JUndefined)]
      \<lparr>ctor = 0, payload = JNull\<rparr> [] Reflux_init)) = [JObj Immutable []]
   \<and> snd (dispatch_to [emits_now (ReplaceableState JUndefined)]
      \<lparr>ctor = 0, payload = JNull\<rparr> [] Reflux_init) = Resolved"
proof -
  note t = replaceable_undefined_is_noop
    [where a = "\<lparr>ctor = 0, payload = JNull\<rparr>" and sched = "[]" and R = Reflux_init]
  then have "dispatch_to [emits_now (ReplaceableState JUndefined)]
      \<lparr>ctor = 0, payload = JNull\<rparr> [] Reflux_init = (Reflux_init, Resolved)"
    by blast
  then show ?thesis
    by (simp add: Reflux_init_def)
qed


subsection \<open>A handler that fails\<close>

lemma truncate_failed:
  "reflux.truncate (r\<lparr>calls := cs, status := st\<rparr>) = reflux.truncate r"
  by (simp add: reflux.truncate_def)

lemma truncate_subscribed: "reflux.truncate (subscribed R) = R"
  by (simp add: subscribed_def reflux.truncate_def reflux.extend_def)

lemma subscribed_fields:
  "state (subscribed R) = state R" "status (subscribed R) = Running"
  "calls (subscribed R) = []" "inners (subscribed R) = []" "index (subscribed R) = 0"
  by (simp_all add: subscribed_def reflux.extend_def run.fields_def)

lemma deliver_sync_then_error:
  assumes "status r = Running"
  shows "(\<exists>e'. status (deliver_sync n (map Next es @ Error err # ns) later r) = Failed e')
       \<and> state (deliver_sync n (map Next es @ Error err # ns) later r) = merge_all (state r) es"
  using assms
proof (induction es arbitrary: r)
  case Nil
  then show ?case by simp
next
  case (Cons e es)
  show ?case
  proof (cases "merge_or_replace (state r) e")
    case (Inl x)
    then show ?thesis by (simp add: on_next_status on_next_state Let_def)
  next
    case (Inr p)
    obtain s' out where p: "p = (s', out)" by (cases p)
    have o: "status (on_next n e r) = Running" "state (on_next n e r) = s'"
      using Inr p Cons.prems by (simp_all add: on_next_status on_next_state)
    from Cons.IH [OF o(1)] show ?thesis
      using Inr p o by (simp add: Let_def)
  qed
qed

lemma flatMap_not_completed:
  "status r \<noteq> Completed \<Longrightarrow> status (flatMap n hs a r) \<noteq> Completed"
proof (induction n hs a r rule: flatMap.induct)
  case (1 n a r)
  then show ?case by simp
next
  case (2 n h hs a r)
  have d: "status (deliver_sync n now later r') \<noteq> Completed" if "status r' \<noteq> Completed"
    for now later r'
    using that
    by (induction n now later r' rule: deliver_sync.induct)
       (auto simp: Let_def on_next_status split: sum.splits)
  show ?case
  proof (cases "status r = Running")
    case False
    with 2 show ?thesis by simp
  next
    case True
    show ?thesis
    proof (cases "h (state r) a")
      case (Throws x1)
      with True show ?thesis by (simp add: Let_def)
    next
      case NotObservable
      with True show ?thesis by (simp add: Let_def)
    next
      case (Observable now later)
      have "status (deliver_sync n now later (r\<lparr>calls := calls r @ [state r]\<rparr>)) \<noteq> Completed"
        using True by (intro d) simp
      with 2 True Observable show ?thesis by (simp add: Let_def)
    qed
  qed
qed

lemma observable_split:
  "observable (hs @ h # hs') a sched R =
     arrivals (length (hs @ h # hs')) sched
       (settle (flatMap (length (hs @ h # hs')) (h # hs') a
          (flatMap (length (hs @ h # hs')) hs a (subscribed R))))"
  by (simp only: observable_def flatMap_append)

lemma failing_call:
  assumes "status r = Running"
    and "h (state r) a = Throws err \<or> h (state r) a = NotObservable"
  shows "\<exists>e'. arrivals n sched (settle (flatMap n (h # hs) a r))
           = r\<lparr>calls := calls r @ [state r], status := Failed e'\<rparr>"
proof -
  from assms obtain e' where
    "flatMap n (h # hs) a r = r\<lparr>calls := calls r @ [state r], status := Failed e'\<rparr>"
    by (auto simp: Let_def)
  then have "arrivals n sched (settle (flatMap n (h # hs) a r))
           = r\<lparr>calls := calls r @ [state r], status := Failed e'\<rparr>"
    by (simp add: settle_stopped arrivals_stopped del: flatMap.simps)
  then show ?thesis ..
qed

lemma failing_observable:
  assumes "status r = Running"
    and "h (state r) a = Observable (map Next es @ Error err # ns) later"
  shows "(\<exists>e'. status (arrivals n sched (settle (flatMap n (h # hs) a r))) = Failed e')
       \<and> state (arrivals n sched (settle (flatMap n (h # hs) a r))) = merge_all (state r) es"
proof -
  define r1 where "r1 = r\<lparr>calls := calls r @ [state r]\<rparr>"
  define r2 where "r2 = deliver_sync n (map Next es @ Error err # ns) later r1"
  have r1: "status r1 = Running" "state r1 = state r"
    using assms(1) by (simp_all add: r1_def)
  from deliver_sync_then_error [OF r1(1), of n es err ns later]
  obtain e' where r2: "status r2 = Failed e'" "state r2 = merge_all (state r) es"
    by (auto simp: r2_def r1)
  have "flatMap n (h # hs) a r = r2"
    using assms r2(1) by (simp add: Let_def r2_def r1_def flatMap_stopped)
  then have "arrivals n sched (settle (flatMap n (h # hs) a r)) = r2"
    using r2(1) by (simp add: settle_stopped arrivals_stopped del: flatMap.simps)
  with r2 show ?thesis by simp
qed

lemma error_arrives:
  assumes "status (observable hs a s1 R) = Running"
    and "k < length (inners (observable hs a s1 R))"
    and "inners (observable hs a s1 R) ! k = Some (Error err # ns)"
  shows "observable hs a (s1 @ k # s2) R = (observable hs a s1 R)\<lparr>status := Failed err\<rparr>"
proof -
  have "arrive (length hs) k (observable hs a s1 R) = (observable hs a s1 R)\<lparr>status := Failed err\<rparr>"
    using assms by (simp add: arrive_def)
  then show ?thesis
    by (simp add: observable_append arrivals_stopped)
qed

lemma state_then_failure:
  assumes "h (merge_all (state R) es) a = Throws err \<or> h (merge_all (state R) es) a = NotObservable
           \<or> h (merge_all (state R) es) a = Observable (Error err # ns) later"
  shows "state (observable (map emits_now es @ h # hs) a sched R) = merge_all (state R) es"
proof -
  define n where "n = length (map emits_now es @ h # hs)"
  define r1 where "r1 = flatMap n (map emits_now es) a (subscribed R)"
  have r1: "state r1 = merge_all (state R) es"
    using flatMap_emits_now [of "subscribed R" n es a]
    by (simp add: r1_def subscribed_fields)
  have o: "observable (map emits_now es @ h # hs) a sched R
             = arrivals n sched (settle (flatMap n (h # hs) a r1))"
    unfolding observable_split n_def r1_def ..
  show ?thesis
  proof (cases "status r1 = Running")
    case False
    then have "arrivals n sched (settle (flatMap n (h # hs) a r1)) = r1"
      by (simp add: flatMap_stopped settle_stopped arrivals_stopped del: flatMap.simps)
    then show ?thesis by (simp add: o r1)
  next
    case True
    from assms consider "h (state r1) a = Throws err \<or> h (state r1) a = NotObservable"
      | "h (state r1) a = Observable (map Next [] @ Error err # ns) later"
      by (auto simp: r1)
    then show ?thesis
    proof cases
      case 1
      from failing_call [of r1 h a err n sched hs] True 1 show ?thesis
        by (auto simp: o r1)
    next
      case 2
      from failing_observable [of r1 h a "[]" err ns later n sched hs] True 2 show ?thesis
        by (simp add: o r1)
    qed
  qed
qed


text \<open>
  Claim C1, as amended. A dispatch in which a handler fails stops at the failure and
  nothing is rolled back: the state after the dispatch is the state at the moment of the
  failure, in which every result that arrived before the failure is merged, and whatever
  the handlers' Observables would send after the failure changes neither the state nor
  the state stream. This holds when a handler throws or returns something that is not an
  Observable, when its Observable sends an error while the handlers are being called,
  after any results of its own, and when an error arrives later. When the failure comes
  before any result, as when the first handler throws or returns something that is not
  an Observable, the namespace after the dispatch is the one before it.
\<close>

theorem failure_is_not_rolled_back:
  "(status (observable hs a s1 R) = Failed err \<longrightarrow>
      observable hs a (s1 @ s2) R = observable hs a s1 R)
   \<and> (n = length (hs1 @ h # hs2) \<and> status (flatMap n hs1 a (subscribed R)) = Running
       \<and> (h (state (flatMap n hs1 a (subscribed R))) a = Throws err
          \<or> h (state (flatMap n hs1 a (subscribed R))) a = NotObservable) \<longrightarrow>
      fst (dispatch_to (hs1 @ h # hs2) a sched R)
        = reflux.truncate (flatMap n hs1 a (subscribed R)))
   \<and> (n = length (hs1 @ h # hs2) \<and> status (flatMap n hs1 a (subscribed R)) = Running
       \<and> h (state (flatMap n hs1 a (subscribed R))) a
           = Observable (map Next es @ Error err # ns) later \<longrightarrow>
      state (fst (dispatch_to (hs1 @ h # hs2) a sched R))
        = merge_all (state (flatMap n hs1 a (subscribed R))) es)
   \<and> (status (observable hs a s1 R) = Running \<and> k < length (inners (observable hs a s1 R))
       \<and> inners (observable hs a s1 R) ! k = Some (Error err # ns) \<longrightarrow>
      observable hs a (s1 @ k # s2) R = (observable hs a s1 R)\<lparr>status := Failed err\<rparr>)
   \<and> (h (merge_all (state R) es) a = Throws err \<or> h (merge_all (state R) es) a = NotObservable
       \<or> h (merge_all (state R) es) a = Observable (Error err # ns) later \<longrightarrow>
      state (fst (dispatch_to (map emits_now es @ h # hs2) a sched R)) = merge_all (state R) es)
   \<and> (h (state R) a = Throws err \<or> h (state R) a = NotObservable \<longrightarrow>
      fst (dispatch_to (h # hs) a sched R) = R)"
proof (intro conjI impI)
  assume "status (observable hs a s1 R) = Failed err"
  then show "observable hs a (s1 @ s2) R = observable hs a s1 R"
    by (simp add: observable_append arrivals_stopped)
next
  assume h: "n = length (hs1 @ h # hs2) \<and> status (flatMap n hs1 a (subscribed R)) = Running
       \<and> (h (state (flatMap n hs1 a (subscribed R))) a = Throws err
          \<or> h (state (flatMap n hs1 a (subscribed R))) a = NotObservable)"
  define r1 where "r1 = flatMap n hs1 a (subscribed R)"
  from h have n: "n = length (hs1 @ h # hs2)" by blast
  from h have "status r1 = Running"
    and "h (state r1) a = Throws err \<or> h (state r1) a = NotObservable"
    unfolding r1_def by blast+
  from failing_call [of r1 h a err n sched hs2] this
  obtain e' where "arrivals n sched (settle (flatMap n (h # hs2) a r1))
           = r1\<lparr>calls := calls r1 @ [state r1], status := Failed e'\<rparr>"
    by blast
  moreover have "observable (hs1 @ h # hs2) a sched R
        = arrivals n sched (settle (flatMap n (h # hs2) a r1))"
    unfolding observable_split r1_def n ..
  ultimately show "fst (dispatch_to (hs1 @ h # hs2) a sched R)
        = reflux.truncate (flatMap n hs1 a (subscribed R))"
    by (simp add: dispatch_to_def Let_def truncate_failed r1_def)
next
  assume h: "n = length (hs1 @ h # hs2) \<and> status (flatMap n hs1 a (subscribed R)) = Running
       \<and> h (state (flatMap n hs1 a (subscribed R))) a
           = Observable (map Next es @ Error err # ns) later"
  define r1 where "r1 = flatMap n hs1 a (subscribed R)"
  from h have n: "n = length (hs1 @ h # hs2)" by blast
  from h have "status r1 = Running"
    and "h (state r1) a = Observable (map Next es @ Error err # ns) later"
    unfolding r1_def by blast+
  from failing_observable [of r1 h a es err ns later n sched hs2] this
  have "state (arrivals n sched (settle (flatMap n (h # hs2) a r1))) = merge_all (state r1) es"
    by blast
  moreover have "observable (hs1 @ h # hs2) a sched R
        = arrivals n sched (settle (flatMap n (h # hs2) a r1))"
    unfolding observable_split r1_def n ..
  ultimately show "state (fst (dispatch_to (hs1 @ h # hs2) a sched R))
        = merge_all (state (flatMap n hs1 a (subscribed R))) es"
    by (simp add: dispatch_to_def Let_def reflux.truncate_def r1_def)
next
  assume "status (observable hs a s1 R) = Running \<and> k < length (inners (observable hs a s1 R))
       \<and> inners (observable hs a s1 R) ! k = Some (Error err # ns)"
  then show "observable hs a (s1 @ k # s2) R = (observable hs a s1 R)\<lparr>status := Failed err\<rparr>"
    by (intro error_arrives) simp_all
next
  assume "h (merge_all (state R) es) a = Throws err \<or> h (merge_all (state R) es) a = NotObservable
       \<or> h (merge_all (state R) es) a = Observable (Error err # ns) later"
  then have "state (observable (map emits_now es @ h # hs2) a sched R) = merge_all (state R) es"
    by (rule state_then_failure)
  then show "state (fst (dispatch_to (map emits_now es @ h # hs2) a sched R)) = merge_all (state R) es"
    by (simp add: dispatch_to_def Let_def reflux.truncate_def)
next
  assume h: "h (state R) a = Throws err \<or> h (state R) a = NotObservable"
  from failing_call [of "subscribed R" h a err "Suc (length hs)" sched hs] h
  obtain e' where "arrivals (Suc (length hs)) sched
        (settle (flatMap (Suc (length hs)) (h # hs) a (subscribed R)))
      = (subscribed R)\<lparr>calls := calls (subscribed R) @ [state (subscribed R)],
                        status := Failed e'\<rparr>"
    by (auto simp: subscribed_fields)
  then show "fst (dispatch_to (h # hs) a sched R) = R"
    by (simp add: dispatch_to_def observable_def Let_def truncate_failed truncate_subscribed
             del: flatMap.simps)
qed


theorem failure_is_not_rolled_back_witness:
  "observable [emits_now (Plain (JObj Mutable [(''a'', JNum 1)])), throws ''boom'']
       \<lparr>ctor = 0, payload = JNull\<rparr> ([] @ [0]) Reflux_init
     = observable [emits_now (Plain (JObj Mutable [(''a'', JNum 1)])), throws ''boom'']
         \<lparr>ctor = 0, payload = JNull\<rparr> [] Reflux_init
   \<and> state (fst (dispatch_to
         ([emits_now (Plain (JObj Mutable [(''a'', JNum 1)]))] @ throws ''boom'' # [])
         \<lparr>ctor = 0, payload = JNull\<rparr> [] Reflux_init))
       = JObj Immutable [(''a'', JNum 1)]
   \<and> state (fst (dispatch_to
         ([emits_now (Plain (JObj Mutable [(''a'', JNum 1)]))]
          @ emits_then_fails (Plain (JObj Mutable [(''b'', JNum 2)])) ''boom'' # [])
         \<lparr>ctor = 0, payload = JNull\<rparr> [] Reflux_init))
       = JObj Immutable [(''a'', JNum 1), (''b'', JNum 2)]
   \<and> state (observable
         [emits_later (Plain (JObj Mutable [(''a'', JNum 1)])), fails_later ''boom'']
         \<lparr>ctor = 0, payload = JNull\<rparr> ([0] @ 1 # [0]) Reflux_init)
       = JObj Immutable [(''a'', JNum 1)]
   \<and> state (fst (dispatch_to
         (map emits_now [Plain (JObj Mutable [(''a'', JNum 1)])] @ throws ''boom'' # [])
         \<lparr>ctor = 0, payload = JNull\<rparr> [] Reflux_init))
       = JObj Immutable [(''a'', JNum 1)]
   \<and> fst (dispatch_to (throws ''boom'' # [emits_now (Plain (JObj Mutable [(''a'', JNum 1)]))])
         \<lparr>ctor = 0, payload = JNull\<rparr> [] Reflux_init) = Reflux_init"
proof -
  let ?a = "\<lparr>ctor = 0, payload = JNull\<rparr>"
  let ?A = "emits_now (Plain (JObj Mutable [(''a'', JNum 1)]))"
  let ?B = "emits_then_fails (Plain (JObj Mutable [(''b'', JNum 2)])) ''boom''"
  let ?r1 = "flatMap 2 [?A] ?a (subscribed Reflux_init)"
  have n: "(2::nat) = length ([?A] @ throws ''boom'' # [])" "(2::nat) = length ([?A] @ ?B # [])"
    by simp_all
  have run: "status ?r1 = Running"
    by code_simp
  have st: "state ?r1 = JObj Immutable [(''a'', JNum 1)]"
    by code_simp
  have h1: "status (observable [?A, throws ''boom''] ?a [] Reflux_init) = Failed ''boom''"
    by code_simp
  have h2: "throws ''boom'' (state ?r1) ?a = Throws ''boom''"
    by (simp add: throws_def)
  have h3: "?B (state ?r1) ?a
      = Observable (map Next [Plain (JObj Mutable [(''b'', JNum 2)])] @ Error ''boom'' # []) []"
    by (simp add: emits_then_fails_def)
  have h4: "status (observable [emits_later (Plain (JObj Mutable [(''a'', JNum 1)])), fails_later ''boom'']
               ?a [0] Reflux_init) = Running"
    "1 < length (inners (observable
        [emits_later (Plain (JObj Mutable [(''a'', JNum 1)])), fails_later ''boom''] ?a [0] Reflux_init))"
    "inners (observable
        [emits_later (Plain (JObj Mutable [(''a'', JNum 1)])), fails_later ''boom''] ?a [0] Reflux_init) ! 1
       = Some (Error ''boom'' # [])"
    by code_simp+
  have h6: "throws ''boom'' (state Reflux_init) ?a = Throws ''boom''"
    by (simp add: throws_def)
  have h7: "throws ''boom'' (merge_all (state Reflux_init) [Plain (JObj Mutable [(''a'', JNum 1)])]) ?a
      = Throws ''boom''"
    by (simp add: throws_def)
  have e2: "state (reflux.truncate ?r1) = JObj Immutable [(''a'', JNum 1)]"
    using st by (simp add: reflux.truncate_def)
  have e3: "merge_all (state ?r1) [Plain (JObj Mutable [(''b'', JNum 2)])]
      = JObj Immutable [(''a'', JNum 1), (''b'', JNum 2)]"
    unfolding st by code_simp
  have e4: "state ((observable [emits_later (Plain (JObj Mutable [(''a'', JNum 1)])), fails_later ''boom'']
               ?a [0] Reflux_init)\<lparr>status := Failed ''boom''\<rparr>) = JObj Immutable [(''a'', JNum 1)]"
    by code_simp
  have e5: "merge_all (state Reflux_init) [Plain (JObj Mutable [(''a'', JNum 1)])]
      = JObj Immutable [(''a'', JNum 1)]"
    by code_simp
  note t1 = failure_is_not_rolled_back
    [where hs = "[?A, throws ''boom'']" and a = ?a and ?s1.0 = "[]" and ?s2.0 = "[0]"
       and R = Reflux_init and err = "''boom''" and n = 2 and ?hs1.0 = "[?A]"
       and h = "throws ''boom''" and ?hs2.0 = "[]" and sched = "[]"]
  note t2 = failure_is_not_rolled_back
    [where a = ?a and R = Reflux_init and err = "''boom''" and n = 2 and ?hs1.0 = "[?A]"
       and h = ?B and ?hs2.0 = "[]" and sched = "[]"
       and es = "[Plain (JObj Mutable [(''b'', JNum 2)])]" and ns = "[]" and later = "[]"]
  note t3 = failure_is_not_rolled_back
    [where hs = "[emits_later (Plain (JObj Mutable [(''a'', JNum 1)])), fails_later ''boom'']"
       and a = ?a and ?s1.0 = "[0]" and ?s2.0 = "[0]" and R = Reflux_init and err = "''boom''"
       and k = 1 and ns = "[]"]
  note t4 = failure_is_not_rolled_back
    [where a = ?a and R = Reflux_init and err = "''boom''" and h = "throws ''boom''"
       and es = "[Plain (JObj Mutable [(''a'', JNum 1)])]" and ?hs2.0 = "[]" and sched = "[]"
       and hs = "[?A]"]
  from t1 h1 have c1: "observable [?A, throws ''boom''] ?a ([] @ [0]) Reflux_init
     = observable [?A, throws ''boom''] ?a [] Reflux_init"
    by blast
  from t1 n(1) run h2 have "fst (dispatch_to ([?A] @ throws ''boom'' # []) ?a [] Reflux_init)
      = reflux.truncate ?r1"
    by blast
  with e2 have c2: "state (fst (dispatch_to ([?A] @ throws ''boom'' # []) ?a [] Reflux_init))
      = JObj Immutable [(''a'', JNum 1)]"
    by simp
  from t2 n(2) run h3 have "state (fst (dispatch_to ([?A] @ ?B # []) ?a [] Reflux_init))
      = merge_all (state ?r1) [Plain (JObj Mutable [(''b'', JNum 2)])]"
    by blast
  with e3 have c3: "state (fst (dispatch_to ([?A] @ ?B # []) ?a [] Reflux_init))
      = JObj Immutable [(''a'', JNum 1), (''b'', JNum 2)]"
    by simp
  from t3 h4 have "observable
         [emits_later (Plain (JObj Mutable [(''a'', JNum 1)])), fails_later ''boom'']
         ?a ([0] @ 1 # [0]) Reflux_init
       = (observable [emits_later (Plain (JObj Mutable [(''a'', JNum 1)])), fails_later ''boom'']
               ?a [0] Reflux_init)\<lparr>status := Failed ''boom''\<rparr>"
    by blast
  with e4 have c4: "state (observable
         [emits_later (Plain (JObj Mutable [(''a'', JNum 1)])), fails_later ''boom'']
         ?a ([0] @ 1 # [0]) Reflux_init) = JObj Immutable [(''a'', JNum 1)]"
    by simp
  from t4 h7 have "state (fst (dispatch_to
         (map emits_now [Plain (JObj Mutable [(''a'', JNum 1)])] @ throws ''boom'' # []) ?a [] Reflux_init))
      = merge_all (state Reflux_init) [Plain (JObj Mutable [(''a'', JNum 1)])]"
    by blast
  with e5 have c5: "state (fst (dispatch_to
         (map emits_now [Plain (JObj Mutable [(''a'', JNum 1)])] @ throws ''boom'' # []) ?a [] Reflux_init))
      = JObj Immutable [(''a'', JNum 1)]"
    by simp
  from t4 h6 have c6: "fst (dispatch_to (throws ''boom'' # [?A]) ?a [] Reflux_init) = Reflux_init"
    by blast
  from c1 c2 c3 c4 c5 c6 show ?thesis
    by blast
qed


text \<open>
  Claim C1 as the spec states it fails: handler A's result \<open>{a: 1}\<close> arrives, then
  handler B throws, and the state after the dispatch is \<open>{a: 1}\<close>, not the \<open>{}\<close> it was
  before. It is the same when B's Observable fails after A's result has arrived.
\<close>

theorem partial_commit_on_failure:
  "state (fst (dispatch \<lparr>ctor = 0, payload = JNull\<rparr> []
      (subscribe (throws ''boom'') \<lparr>ctor = 0, payload = JNull\<rparr>
        (subscribe (emits_now (Plain (JObj Mutable [(''a'', JNum 1)]))) \<lparr>ctor = 0, payload = JNull\<rparr>
           Reflux_init))))
     = JObj Immutable [(''a'', JNum 1)]
   \<and> state (fst (dispatch \<lparr>ctor = 0, payload = JNull\<rparr> [0, 1]
      (subscribe (fails_later ''boom'') \<lparr>ctor = 0, payload = JNull\<rparr>
        (subscribe (emits_later (Plain (JObj Mutable [(''a'', JNum 1)]))) \<lparr>ctor = 0, payload = JNull\<rparr>
           Reflux_init))))
     = JObj Immutable [(''a'', JNum 1)]
   \<and> state Reflux_init = JObj Immutable []"
  by code_simp

subsection \<open>The Promise\<close>

lemma promise_not_rejected: "promise_of (catch_empty s) \<noteq> Rejected err"
  by (cases s) (simp_all add: promise_of_def catch_empty_def)

lemma promise_after_failure: "promise_of (catch_empty (Failed e)) = Resolved"
  by (simp add: promise_of_def catch_empty_def)

lemma promise_unless_running: "s \<noteq> Running \<Longrightarrow> promise_of (catch_empty s) = Resolved"
  by (cases s) (simp_all add: promise_of_def catch_empty_def)

lemma dispatch_to_not_rejected: "snd (dispatch_to hs a sched R) \<noteq> Rejected err"
  by (simp add: dispatch_to_def Let_def promise_not_rejected)

lemma dispatch_not_rejected: "snd (dispatch a sched R) \<noteq> Rejected err"
  by (simp add: dispatch_def Let_def dispatch_to_not_rejected split: prod.splits option.splits)

lemma call_fails_resolves:
  assumes "n = length (hs1 @ h # hs2)"
    and "h (state (flatMap n hs1 a (subscribed R))) a = Throws e
         \<or> h (state (flatMap n hs1 a (subscribed R))) a = NotObservable
         \<or> h (state (flatMap n hs1 a (subscribed R))) a
             = Observable (map Next es @ Error e # ns) later"
  shows "snd (dispatch_to (hs1 @ h # hs2) a sched R) = Resolved"
proof -
  define r1 where "r1 = flatMap n hs1 a (subscribed R)"
  have o: "observable (hs1 @ h # hs2) a sched R
        = arrivals n sched (settle (flatMap n (h # hs2) a r1))"
    unfolding observable_split r1_def assms(1) ..
  have "status (arrivals n sched (settle (flatMap n (h # hs2) a r1))) \<noteq> Running"
  proof (cases "status r1 = Running")
    case False
    then show ?thesis
      by (simp add: flatMap_stopped settle_stopped arrivals_stopped del: flatMap.simps)
  next
    case True
    from assms(2) consider "h (state r1) a = Throws e \<or> h (state r1) a = NotObservable"
      | "h (state r1) a = Observable (map Next es @ Error e # ns) later"
      unfolding r1_def by blast
    then show ?thesis
    proof cases
      case 1
      from failing_call [of r1 h a e n sched hs2] True 1 show ?thesis by auto
    next
      case 2
      from failing_observable [of r1 h a es e ns later n sched hs2] True 2 show ?thesis by auto
    qed
  qed
  then show ?thesis
    by (simp add: dispatch_to_def Let_def o promise_unless_running)
qed

text \<open>
  Claim C2, as amended. The Promise returned by \<open>dispatch\<close> is never rejected. When a
  handler errors, \<open>catch\<close> replaces the error by an empty Observable, which completes,
  and the Promise is resolved: so it is when the handler at any place of the list throws
  on being called or returns something that is not an Observable, when its Observable
  sends an error at once, after any results, and when the error of an Observable arrives
  later.
\<close>

theorem handler_error_resolves_promise:
  "snd (dispatch a sched R) \<noteq> Rejected err
   \<and> (status (observable hs a sched R) = Failed e \<longrightarrow>
        snd (dispatch_to hs a sched R) = Resolved)
   \<and> (n = length (hs1 @ h # hs2)
       \<and> (h (state (flatMap n hs1 a (subscribed R))) a = Throws e
          \<or> h (state (flatMap n hs1 a (subscribed R))) a = NotObservable
          \<or> h (state (flatMap n hs1 a (subscribed R))) a
              = Observable (map Next es @ Error e # ns) later) \<longrightarrow>
        snd (dispatch_to (hs1 @ h # hs2) a sched R) = Resolved)
   \<and> (status (observable hs a s1 R) = Running \<and> k < length (inners (observable hs a s1 R))
       \<and> inners (observable hs a s1 R) ! k = Some (Error e # ns) \<longrightarrow>
        snd (dispatch_to hs a (s1 @ k # s2) R) = Resolved)"
proof (intro conjI impI)
  show "snd (dispatch a sched R) \<noteq> Rejected err"
    by (rule dispatch_not_rejected)
next
  assume "status (observable hs a sched R) = Failed e"
  then show "snd (dispatch_to hs a sched R) = Resolved"
    by (simp add: dispatch_to_def Let_def promise_after_failure)
next
  assume "n = length (hs1 @ h # hs2)
       \<and> (h (state (flatMap n hs1 a (subscribed R))) a = Throws e
          \<or> h (state (flatMap n hs1 a (subscribed R))) a = NotObservable
          \<or> h (state (flatMap n hs1 a (subscribed R))) a
              = Observable (map Next es @ Error e # ns) later)"
  then show "snd (dispatch_to (hs1 @ h # hs2) a sched R) = Resolved"
    by (intro call_fails_resolves [of n hs1 h hs2 a R e es ns later sched]) blast+
next
  assume "status (observable hs a s1 R) = Running \<and> k < length (inners (observable hs a s1 R))
       \<and> inners (observable hs a s1 R) ! k = Some (Error e # ns)"
  then have "observable hs a (s1 @ k # s2) R = (observable hs a s1 R)\<lparr>status := Failed e\<rparr>"
    by (intro error_arrives) blast+
  then show "snd (dispatch_to hs a (s1 @ k # s2) R) = Resolved"
    by (simp add: dispatch_to_def Let_def promise_after_failure)
qed

theorem handler_error_resolves_promise_witness:
  "snd (dispatch_to [emits_now (Plain (JObj Mutable [(''a'', JNum 1)])), fails_later ''boom'']
          \<lparr>ctor = 0, payload = JNull\<rparr> ([] @ 1 # []) Reflux_init) = Resolved
   \<and> snd (dispatch_to
          ([emits_later (Plain (JObj Mutable [(''a'', JNum 1)]))] @ throws ''boom'' # [])
          \<lparr>ctor = 0, payload = JNull\<rparr> [] Reflux_init) = Resolved
   \<and> snd (dispatch_to
          ([emits_later (Plain (JObj Mutable [(''a'', JNum 1)]))]
           @ emits_then_fails (Plain (JObj Mutable [(''b'', JNum 2)])) ''boom'' # [])
          \<lparr>ctor = 0, payload = JNull\<rparr> [] Reflux_init) = Resolved
   \<and> snd (dispatch_to [throws ''boom''] \<lparr>ctor = 0, payload = JNull\<rparr> [] Reflux_init) = Resolved"
proof -
  let ?a = "\<lparr>ctor = 0, payload = JNull\<rparr>"
  let ?A = "emits_now (Plain (JObj Mutable [(''a'', JNum 1)]))"
  let ?L = "emits_later (Plain (JObj Mutable [(''a'', JNum 1)]))"
  let ?B = "emits_then_fails (Plain (JObj Mutable [(''b'', JNum 2)])) ''boom''"
  have n: "(2::nat) = length ([?L] @ throws ''boom'' # [])" "(2::nat) = length ([?L] @ ?B # [])"
    by simp_all
  have h1: "status (observable [throws ''boom''] ?a [] Reflux_init) = Failed ''boom''"
    by code_simp
  have h2: "throws ''boom'' (state (flatMap 2 [?L] ?a (subscribed Reflux_init))) ?a = Throws ''boom''"
    by (simp add: throws_def)
  have h3: "?B (state (flatMap 2 [?L] ?a (subscribed Reflux_init))) ?a
      = Observable (map Next [Plain (JObj Mutable [(''b'', JNum 2)])] @ Error ''boom'' # []) []"
    by (simp add: emits_then_fails_def)
  have h4: "status (observable [?A, fails_later ''boom''] ?a [] Reflux_init) = Running"
    "1 < length (inners (observable [?A, fails_later ''boom''] ?a [] Reflux_init))"
    "inners (observable [?A, fails_later ''boom''] ?a [] Reflux_init) ! 1 = Some (Error ''boom'' # [])"
    by code_simp+
  note t1 = handler_error_resolves_promise
    [where hs = "[throws ''boom'']" and a = ?a and sched = "[]" and R = Reflux_init
       and e = "''boom''" and n = 2 and ?hs1.0 = "[?L]" and h = "throws ''boom''" and ?hs2.0 = "[]"]
  note t2 = handler_error_resolves_promise
    [where hs = "[?A, fails_later ''boom'']" and a = ?a and sched = "[]" and R = Reflux_init
       and e = "''boom''" and n = 2 and ?hs1.0 = "[?L]" and h = ?B and ?hs2.0 = "[]"
       and es = "[Plain (JObj Mutable [(''b'', JNum 2)])]" and ns = "[]" and later = "[]"
       and ?s1.0 = "[]" and k = 1 and ?s2.0 = "[]"]
  from t2 h4 have c1: "snd (dispatch_to [?A, fails_later ''boom''] ?a ([] @ 1 # []) Reflux_init) = Resolved"
    by blast
  from t1 n(1) h2 have c2: "snd (dispatch_to ([?L] @ throws ''boom'' # []) ?a [] Reflux_init) = Resolved"
    by blast
  from t2 n(2) h3 have c3: "snd (dispatch_to ([?L] @ ?B # []) ?a [] Reflux_init) = Resolved"
    by blast
  from t1 h1 have c4: "snd (dispatch_to [throws ''boom''] ?a [] Reflux_init) = Resolved"
    by blast
  from c1 c2 c3 c4 show ?thesis by blast
qed

text \<open>
  Claim C2 as the spec states it fails: the only handler throws, and the Promise
  returned by \<open>dispatch\<close> is resolved, not rejected. It is the same when the handler's
  Observable sends an error later.
\<close>

theorem throwing_handler_resolves:
  "snd (dispatch \<lparr>ctor = 0, payload = JNull\<rparr> []
      (subscribe (throws ''boom'') \<lparr>ctor = 0, payload = JNull\<rparr> Reflux_init)) = Resolved
   \<and> snd (dispatch \<lparr>ctor = 0, payload = JNull\<rparr> [0]
      (subscribe (fails_later ''boom'') \<lparr>ctor = 0, payload = JNull\<rparr> Reflux_init)) = Resolved"
  by code_simp


subsection \<open>Merge and replace\<close>











subsection \<open>Selections of the state stream\<close>

lemma strict_equal_sym: "strict_equal x y = strict_equal y x"
  by (cases "(x, y)" rule: strict_equal.cases) auto

lemma strict_equal_undefined: "strict_equal x undefined_ref \<longleftrightarrow> snd x = JUndefined"
  by (cases "(x, undefined_ref)" rule: strict_equal.cases) (auto simp: undefined_ref_def)

lemma select_undefined: "select undefined_ref selector = undefined_ref"
  by (simp add: select_def undefined_ref_def is_undefined_def)

lemma changes_snoc:
  "changes (xs @ [y]) \<longleftrightarrow> changes xs \<and> (xs \<noteq> [] \<longrightarrow> \<not> strict_equal (last xs) y)"
  by (induction xs rule: changes.induct) auto

lemma select_next_delivered:
  "delivered (select_next selector st sub) =
     (if strict_equal (select st selector) (select (previousState sub) selector)
      then delivered sub else delivered sub @ [select st selector])"
  by (simp add: select_next_def Let_def)

lemma select_subscribe_delivered:
  "delivered (select_subscribe selector current) =
     (if snd (select current selector) = JUndefined then [] else [select current selector])"
  by (simp add: select_subscribe_def select_next_delivered select_undefined strict_equal_undefined)

lemma select_next_keeps:
  assumes "changes (delivered sub)"
    and "delivered sub = [] \<longrightarrow> select (previousState sub) selector = undefined_ref"
    and "delivered sub \<noteq> [] \<longrightarrow> last (delivered sub) = select (previousState sub) selector"
  shows "changes (delivered (select_next selector st sub))
       \<and> (delivered (select_next selector st sub) = [] \<longrightarrow>
            select (previousState (select_next selector st sub)) selector = undefined_ref)
       \<and> (delivered (select_next selector st sub) \<noteq> [] \<longrightarrow>
            last (delivered (select_next selector st sub))
              = select (previousState (select_next selector st sub)) selector)"
proof (cases "strict_equal (select st selector) (select (previousState sub) selector)")
  case True
  then have "select_next selector st sub = sub"
    by (simp add: select_next_def)
  with assms show ?thesis by simp
next
  case False
  then have n: "select_next selector st sub
      = sub\<lparr>previousState := st, delivered := delivered sub @ [select st selector]\<rparr>"
    by (simp add: select_next_def Let_def)
  have "delivered sub \<noteq> [] \<longrightarrow> \<not> strict_equal (last (delivered sub)) (select st selector)"
    using False assms(3) by (simp add: strict_equal_sym)
  with assms(1) show ?thesis
    by (simp add: n changes_snoc)
qed

lemma select_publish_keeps:
  assumes "changes (delivered sub)"
    and "delivered sub = [] \<longrightarrow> select (previousState sub) selector = undefined_ref"
    and "delivered sub \<noteq> [] \<longrightarrow> last (delivered sub) = select (previousState sub) selector"
  shows "changes (delivered (select_publish selector sts sub))"
  using assms
proof (induction sts arbitrary: sub)
  case Nil
  then show ?case by simp
next
  case (Cons st sts)
  from select_next_keeps [OF Cons.prems, of st]
  show ?case by (simp add: Cons.IH)
qed

lemma select_subscribe_changes:
  "changes (delivered (select_publish selector sts (select_subscribe selector current)))"
  unfolding select_subscribe_def
  by (intro select_publish_keeps conjunct1 [OF select_next_keeps]
        conjunct1 [OF conjunct2 [OF select_next_keeps]]
        conjunct2 [OF conjunct2 [OF select_next_keeps]])
     (simp_all add: select_undefined)

lemma count_example:
  "delivered (select_publish (Some count)
       [(p1, JObj Immutable [(''count'', JNum 1)]), (p2, JObj Immutable [(''count'', JNum 1)]),
        (p3, JObj Immutable [(''count'', JNum 2)])]
       (select_subscribe (Some count) (p0, JObj Immutable [])))
     = [(0, JNum 1), (0, JNum 2)]"
  by (simp add: select_subscribe_def select_next_def select_def count_def is_undefined_def
        undefined_ref_def Let_def)

text \<open>
  Claim C7, as amended. For a subscription made through a selector, the consumer is
  invoked on a state handed to the subscription exactly when the projection of that state
  is not strictly equal (\<open>!==\<close>) to the projection of the state kept at the last
  notification, where the projection is \<open>undefined\<close> as long as there has been no
  notification; the state is then kept. Strict equality is equality of values for
  primitives and identity of reference for objects. Hence a first observation whose
  projection is \<open>undefined\<close> does not notify, two successive notifications never carry
  strictly equal projections, and the states \<open>{count: 1}\<close>, \<open>{count: 1}\<close>, \<open>{count: 2}\<close>
  notify a consumer of \<open>s => s.count\<close> exactly twice, with 1 and with 2.
\<close>

theorem select_notifies_on_strict_change:
  "delivered (select_next selector st sub) =
     (if strict_equal (select st selector) (select (previousState sub) selector)
      then delivered sub else delivered sub @ [select st selector])
   \<and> previousState (select_next selector st sub) =
     (if strict_equal (select st selector) (select (previousState sub) selector)
      then previousState sub else st)
   \<and> changes (delivered (select_publish selector sts (select_subscribe selector current)))
   \<and> delivered (select_publish (Some count)
         [(p1, JObj Immutable [(''count'', JNum 1)]), (p2, JObj Immutable [(''count'', JNum 1)]),
          (p3, JObj Immutable [(''count'', JNum 2)])]
         (select_subscribe (Some count) (p0, JObj Immutable [])))
       = [(0, JNum 1), (0, JNum 2)]"
  using select_next_delivered [of selector st sub]
    select_subscribe_changes [of selector sts current] count_example [of p1 p2 p3 p0]
  by (simp add: select_next_def Let_def)

theorem select_notifies_on_strict_change_witness:
  "delivered (select_next (Some count) (2, JObj Immutable [(''count'', JNum 2)])
       \<lparr>previousState = (1, JObj Immutable [(''count'', JNum 1)]), delivered = [(0, JNum 1)]\<rparr>)
     = [(0, JNum 1), (0, JNum 2)]
   \<and> changes (delivered (select_publish (Some count)
         [(2, JObj Immutable [(''count'', JNum 1)]), (3, JObj Immutable [(''count'', JNum 2)])]
         (select_subscribe (Some count) (1, JObj Immutable [(''count'', JNum 1)]))))"
proof -
  have e: "(if strict_equal (select (2, JObj Immutable [(''count'', JNum 2)]) (Some count))
                 (select (previousState
                    \<lparr>previousState = (1, JObj Immutable [(''count'', JNum 1)]), delivered = [(0, JNum 1)]\<rparr>)
                    (Some count))
            then delivered
                   \<lparr>previousState = (1, JObj Immutable [(''count'', JNum 1)]), delivered = [(0, JNum 1)]\<rparr>
            else delivered
                   \<lparr>previousState = (1, JObj Immutable [(''count'', JNum 1)]), delivered = [(0, JNum 1)]\<rparr>
                 @ [select (2, JObj Immutable [(''count'', JNum 2)]) (Some count)])
           = [(0, JNum 1), (0, JNum 2)]"
    by (simp add: select_def count_def is_undefined_def)
  note t = select_notifies_on_strict_change
    [where selector = "Some count" and st = "(2, JObj Immutable [(''count'', JNum 2)])"
       and sub = "\<lparr>previousState = (1, JObj Immutable [(''count'', JNum 1)]), delivered = [(0, JNum 1)]\<rparr>"
       and sts = "[(2, JObj Immutable [(''count'', JNum 1)]), (3, JObj Immutable [(''count'', JNum 2)])]"
       and current = "(1, JObj Immutable [(''count'', JNum 1)])"]
  from t have
    "delivered (select_next (Some count) (2, JObj Immutable [(''count'', JNum 2)])
       \<lparr>previousState = (1, JObj Immutable [(''count'', JNum 1)]), delivered = [(0, JNum 1)]\<rparr>)
     = (if strict_equal (select (2, JObj Immutable [(''count'', JNum 2)]) (Some count))
                 (select (previousState
                    \<lparr>previousState = (1, JObj Immutable [(''count'', JNum 1)]), delivered = [(0, JNum 1)]\<rparr>)
                    (Some count))
            then delivered
                   \<lparr>previousState = (1, JObj Immutable [(''count'', JNum 1)]), delivered = [(0, JNum 1)]\<rparr>
            else delivered
                   \<lparr>previousState = (1, JObj Immutable [(''count'', JNum 1)]), delivered = [(0, JNum 1)]\<rparr>
                 @ [select (2, JObj Immutable [(''count'', JNum 2)]) (Some count)])"
    and "changes (delivered (select_publish (Some count)
         [(2, JObj Immutable [(''count'', JNum 1)]), (3, JObj Immutable [(''count'', JNum 2)])]
         (select_subscribe (Some count) (1, JObj Immutable [(''count'', JNum 1)]))))"
    by blast+
  then show ?thesis unfolding e by blast
qed

text \<open>
  Claim C7 as the spec states it fails. Two published states with the same content
  \<open>{count: 1}\<close> are two objects: a subscription that selects the state itself is
  notified of both, though they are structurally equal. And a subscription to
  \<open>s => s.count\<close> whose first observations have no \<open>count\<close> is not notified at all,
  first observation or not.
\<close>

theorem select_compares_references:
  "delivered (select_publish None [(2, JObj Immutable [(''count'', JNum 1)])]
       (select_subscribe None (1, JObj Immutable [(''count'', JNum 1)])))
     = [(1, JObj Immutable [(''count'', JNum 1)]), (2, JObj Immutable [(''count'', JNum 1)])]
   \<and> delivered (select_publish (Some count) [(2, JObj Immutable [(''other'', JNum 1)])]
         (select_subscribe (Some count) (1, JObj Immutable [])))
     = []"
  by (simp add: select_subscribe_def select_next_def select_def count_def is_undefined_def
        undefined_ref_def Let_def)

text \<open>
  Claim C8, as amended. The state stream is a BehaviorSubject: at subscribe time it hands
  its current value to the new subscription, and the consumer is invoked at once with the
  projection of that value, unless the projection is \<open>undefined\<close>. No notification is
  delivered at subscribe time only in that case.
\<close>

theorem select_notifies_at_subscribe_time:
  "delivered (select_subscribe selector current) =
     (if snd (select current selector) = JUndefined then [] else [select current selector])"
  by (rule select_subscribe_delivered)

theorem select_notifies_at_subscribe_time_witness:
  "delivered (select_subscribe (Some count) (1, JObj Immutable [(''count'', JNum 5)])) = [(0, JNum 5)]
   \<and> delivered (select_subscribe (Some count) (1, JObj Immutable [(''other'', JNum 5)])) = []"
proof -
  have e1: "(if snd (select (1, JObj Immutable [(''count'', JNum 5)]) (Some count)) = JUndefined then []
            else [select (1, JObj Immutable [(''count'', JNum 5)]) (Some count)]) = [(0, JNum 5)]"
    by (simp add: select_def count_def is_undefined_def)
  have e2: "(if snd (select (1, JObj Immutable [(''other'', JNum 5)]) (Some count)) = JUndefined then []
            else [select (1, JObj Immutable [(''other'', JNum 5)]) (Some count)]) = []"
    by (simp add: select_def count_def is_undefined_def undefined_ref_def)
  from select_notifies_at_subscribe_time [of "Some count" "(1, JObj Immutable [(''count'', JNum 5)])"]
    select_notifies_at_subscribe_time [of "Some count" "(1, JObj Immutable [(''other'', JNum 5)])"]
  show ?thesis unfolding e1 e2 by (rule conjI)
qed

text \<open>
  Claim C8 as the spec states it fails: a consumer that subscribes to \<open>s => s.count\<close>
  while the stream holds \<open>{count: 1}\<close> is invoked with 1 at subscribe time, before any
  publish; a consumer that subscribes to the whole initial state \<open>{}\<close> is invoked with
  it at subscribe time.
\<close>

theorem notification_at_subscribe_time:
  "delivered (select_subscribe (Some count) (1, JObj Immutable [(''count'', JNum 1)])) = [(0, JNum 1)]
   \<and> delivered (select_subscribe None (1, JObj Immutable [])) = [(1, JObj Immutable [])]"
  by (simp add: select_subscribe_def select_next_def select_def count_def is_undefined_def
        undefined_ref_def Let_def)

end
